theory Spec2Isabelle
  imports Main "HOL-Library.Char_ord" "HOL-Library.List_Lexorder" "HOL-Library.Sublist"
begin

section \<open>Python string and path primitives\<close>

text \<open>
  Strings are \<^typ>\<open>string\<close>. The path separator \<open>os.sep\<close> is a parameter \<open>sep\<close> of
  every function that refers to it (\<open>CHR ''/''\<close> on POSIX). The functions of
  \<open>os.path\<close> follow \<open>posixpath\<close>, with \<open>sep\<close> in the place of the slash.
\<close>

definition endswith :: "string \<Rightarrow> string \<Rightarrow> bool" where
  "endswith s ending = (take (length ending) (rev s) = rev ending)"

text \<open>\<open>s.split(c)\<close> for a one-character separator: never an empty list.\<close>

fun str_split :: "char \<Rightarrow> string \<Rightarrow> string list" where
  "str_split c [] = [[]]"
| "str_split c (x # xs) =
     (if x = c then [] # str_split c xs
      else (case str_split c xs of [] \<Rightarrow> [[x]] | w # ws \<Rightarrow> (x # w) # ws))"

text \<open>\<open>s.join(xs)\<close>.\<close>

fun str_join :: "string \<Rightarrow> string list \<Rightarrow> string" where
  "str_join s [] = []"
| "str_join s [x] = x"
| "str_join s (x # y # ys) = x @ s @ str_join s (y # ys)"

text \<open>\<open>s.replace(old, new)\<close> for one-character \<open>old\<close> and \<open>new\<close>.\<close>

definition str_replace :: "char \<Rightarrow> char \<Rightarrow> string \<Rightarrow> string" where
  "str_replace old new s = map (\<lambda>c. if c = old then new else c) s"

text \<open>\<open>s.rfind(c)\<close>: the last index of \<open>c\<close>, or \<open>-1\<close>.\<close>

definition rfind :: "string \<Rightarrow> char \<Rightarrow> int" where
  "rfind s c =
     (if c \<in> set s
      then int (length s) - 1 - int (length (takeWhile (\<lambda>x. x \<noteq> c) (rev s)))
      else - 1)"

text \<open>\<open>os.path.basename(p)\<close>: \<open>i = p.rfind(sep) + 1; return p[i:]\<close>.\<close>

definition basename :: "char \<Rightarrow> string \<Rightarrow> string" where
  "basename sep p = drop (nat (rfind p sep + 1)) p"

text \<open>
  \<open>os.path.splitext(p)\<close> (\<open>genericpath._splitext\<close> with no alternative separator). The
  loop over \<open>filenameIndex\<close> looks for a character other than the dot between the last
  separator and the last dot: leading dots of the last component belong to the root.
\<close>

fun has_non_dot :: "string \<Rightarrow> bool" where
  "has_non_dot [] = False"
| "has_non_dot (c # cs) = (if c \<noteq> CHR ''.'' then True else has_non_dot cs)"

definition splitext :: "char \<Rightarrow> string \<Rightarrow> string \<times> string" where
  "splitext sep p =
     (let sepIndex = rfind p sep;
          dotIndex = rfind p (CHR ''.'')
      in if dotIndex > sepIndex \<and>
            has_non_dot (take (nat (dotIndex - (sepIndex + 1))) (drop (nat (sepIndex + 1)) p))
         then (take (nat dotIndex) p, drop (nat dotIndex) p)
         else (p, []))"

text \<open>\<open>os.path.join(a, b)\<close>.\<close>

definition path_join :: "char \<Rightarrow> string \<Rightarrow> string \<Rightarrow> string" where
  "path_join sep a b =
     (if b \<noteq> [] \<and> hd b = sep then b
      else if a = [] \<or> last a = sep then a @ b
      else a @ [sep] @ b)"

text \<open>\<open>os.path.normpath(path)\<close>.\<close>

definition normpath_step :: "nat \<Rightarrow> string \<Rightarrow> string list \<Rightarrow> string list" where
  "normpath_step initial_slashes component new_comps =
     (if component = [] \<or> component = ''.'' then new_comps
      else if component \<noteq> ''..'' \<or> (initial_slashes = 0 \<and> new_comps = [])
              \<or> (new_comps \<noteq> [] \<and> last new_comps = ''..'')
           then new_comps @ [component]
      else if new_comps \<noteq> [] then butlast new_comps
      else new_comps)"

definition normpath :: "char \<Rightarrow> string \<Rightarrow> string" where
  "normpath sep path =
     (if path = [] then ''.''
      else
        let initial_slashes =
              (if take 1 path = [sep]
               then (if take 2 path = [sep, sep] \<and> take 3 path \<noteq> [sep, sep, sep]
                     then 2 else 1)
               else 0);
            comps = fold (normpath_step initial_slashes) (str_split sep path) [];
            path' = replicate initial_slashes sep @ str_join [sep] comps
        in if path' = [] then ''.'' else path')"

section \<open>The file system\<close>

text \<open>
  A directory lists its entries in the order \<open>os.scandir\<close> yields them; a file holds
  its text. Symbolic links are not modelled.
\<close>

datatype node = File string | Dir "(string \<times> node) list"

fun is_dir :: "node \<Rightarrow> bool" where
  "is_dir (Dir _) = True"
| "is_dir (File _) = False"

text \<open>
  The paths \<open>os.walk\<close> yields are \<open>rootDirectory\<close> with the names of the directories on
  the way joined on. A directory is identified here by this list of names, and
  \<open>os.path.relpath(directory, rootDirectory)\<close> is the list joined by \<open>sep\<close>, or \<open>.\<close> for the
  root itself.
\<close>

definition relpath :: "char \<Rightarrow> string list \<Rightarrow> string" where
  "relpath sep directory = (if directory = [] then ''.'' else str_join [sep] directory)"

section \<open>IndexGenerator\<close>

text \<open>
  An event is one \<open>self.contents += ...\<close> of the run: the heading of a key, or the link of
  a file, each with the text that was appended. The list \<open>emitted\<close> is a history
  variable: the class does not have it, and no decision of the model reads it.
\<close>

datatype event = Heading string string | Link string string

fun event_text :: "event \<Rightarrow> string" where
  "event_text (Heading key text) = text"
| "event_text (Link file text) = text"

record generator =
  rootDirectory :: string
  outputFile :: string
  contents :: string
  printed :: "string set"
  emitted :: "event list"

definition filterDirectory :: "string list \<Rightarrow> string list \<Rightarrow> string list \<times> string list \<times> bool" where
  "filterDirectory subdirectories files =
     (let subdirectories' =
            filter (\<lambda>subdirectory. subdirectory \<notin> set [''.git'', ''.github'']) subdirectories;
          files' = filter (\<lambda>file. endswith file ''.md'' \<and> file \<noteq> ''README.md'') files
      in (subdirectories', files', files' \<noteq> []))"

definition generateLink :: "char \<Rightarrow> string \<Rightarrow> string" where
  "generateLink sep file =
     (let name = basename sep file;
          title = fst (splitext sep name);
          link = str_replace sep (CHR ''/'') file
      in ''- ['' @ title @ '']('' @ link @ '')'')"

text \<open>The loop of \<open>_addDirectoryHeadings\<close>, at index \<open>i\<close> with \<open>accumulated\<close> so far.\<close>

fun addDirectoryHeadings_loop ::
  "nat \<Rightarrow> string list \<Rightarrow> string list \<Rightarrow> generator \<Rightarrow> generator" where
  "addDirectoryHeadings_loop i accumulated [] g = g"
| "addDirectoryHeadings_loop i accumulated (part # parts) g =
     (let accumulated' = accumulated @ [part];
          key = str_join ''/'' accumulated';
          g' = (if key \<notin> printed g
                then (let headingLevel = replicate (i + 2) (CHR ''#'');
                          text = [CHR 10] @ headingLevel @ '' '' @ part @ [CHR 10]
                      in g\<lparr>contents := contents g @ text,
                           printed := insert key (printed g),
                           emitted := emitted g @ [Heading key text]\<rparr>)
                else g)
      in addDirectoryHeadings_loop (Suc i) accumulated' parts g')"

definition addDirectoryHeadings :: "char \<Rightarrow> string \<Rightarrow> generator \<Rightarrow> generator" where
  "addDirectoryHeadings sep relativeDirectory g =
     addDirectoryHeadings_loop 0 [] (str_split sep relativeDirectory) g"

text \<open>The body of the loop over \<open>sorted(files)\<close> in \<open>_processDirectory\<close>.\<close>

definition addLink :: "char \<Rightarrow> string \<Rightarrow> string \<Rightarrow> generator \<Rightarrow> generator" where
  "addLink sep relativeDirectory file g =
     (let file' = (if relativeDirectory \<noteq> ''.'' then path_join sep relativeDirectory file
                   else file);
          text = generateLink sep file' @ [CHR 10]
      in g\<lparr>contents := contents g @ text, emitted := emitted g @ [Link file' text]\<rparr>)"

definition processDirectory :: "char \<Rightarrow> string list \<Rightarrow> string list \<Rightarrow> generator \<Rightarrow> generator" where
  "processDirectory sep directory files g =
     (let relativeDirectory = relpath sep directory;
          g' = (if relativeDirectory \<noteq> ''.''
                then addDirectoryHeadings sep relativeDirectory g else g)
      in fold (addLink sep relativeDirectory) (sort files) g')"

text \<open>
  The loop of \<open>generate\<close> over \<open>os.walk\<close>, top down: the entries of a directory are
  split into the names of directories and of the rest, the loop body filters both lists
  in place and processes the directory, and the walk then descends into each name left
  in the list of directories. A root that is no directory yields nothing.
\<close>

function walk :: "char \<Rightarrow> string list \<Rightarrow> node \<Rightarrow> generator \<Rightarrow> generator" where
  "walk sep directory (File text) g = g"
| "walk sep directory (Dir entries) g =
     (let subdirectories = map fst (filter (\<lambda>e. is_dir (snd e)) entries);
          files = map fst (filter (\<lambda>e. \<not> is_dir (snd e)) entries);
          (subdirectories', files', nonempty) = filterDirectory subdirectories files;
          g' = (if nonempty then processDirectory sep directory files' g else g)
      in fold (\<lambda>name g. case map_of entries name of
                           None \<Rightarrow> g
                         | Some child \<Rightarrow> walk sep (directory @ [name]) child g)
              subdirectories' g')"
  by pat_completeness auto

termination walk
proof (relation "measure (\<lambda>(sep, directory, n, g). size n)")
  show "wf (measure (\<lambda>(sep, directory, n, g). size n))" by simp
next
  fix sep :: char and directory :: "string list" and entries :: "(string \<times> node) list"
    and g :: generator and name :: string and child :: node and g1 :: generator
  assume "map_of entries name = Some child"
  then have "(name, child) \<in> set entries" by (rule map_of_SomeD)
  then have "size child < Suc (size_list (size_prod (\<lambda>_. 0) size) entries)"
    by (induction entries) auto
  then show "((sep, directory @ [name], child, g1), (sep, directory, Dir entries, g))
               \<in> measure (\<lambda>(sep, directory, n, g). size n)"
    by simp
qed

section \<open>The process\<close>

text \<open>
  The world of a run: what is at \<open>rootDirectory\<close> (nothing, a file or a directory), and
  the two output streams. The script only reads below \<open>rootDirectory\<close> and only writes
  \<open>README.md\<close> in it, so the rest of the file system is left out.
\<close>

record world =
  root_node :: "node option"
  stdout :: string
  stderr :: string

text \<open>
  How the process ends: normally, by \<open>sys.exit\<close>, or by an exception nobody catches (the
  traceback the interpreter then prints is not modelled).
\<close>

datatype outcome = Completed | SystemExit nat
  | FileNotFoundError | NotADirectoryError | IsADirectoryError

fun exit_status :: "outcome \<Rightarrow> nat" where
  "exit_status Completed = 0"
| "exit_status (SystemExit n) = n"
| "exit_status FileNotFoundError = 1"
| "exit_status NotADirectoryError = 1"
| "exit_status IsADirectoryError = 1"

text \<open>\<open>print(x)\<close> writes \<open>x\<close> and a newline to standard output.\<close>

definition print :: "string \<Rightarrow> world \<Rightarrow> world" where
  "print x w = w\<lparr>stdout := stdout w @ x @ [CHR 10]\<rparr>"

definition error_message :: "string \<Rightarrow> string" where
  "error_message rootDirectory' =
     ''Error: The specified directory '' @ [CHR 39] @ rootDirectory' @ [CHR 39]
     @ '' does not exist.''"

text \<open>The fields \<open>__init__\<close> sets once the root directory is known to exist.\<close>

definition new_generator :: "char \<Rightarrow> string \<Rightarrow> string \<Rightarrow> generator" where
  "new_generator sep rootDirectory' outputFile' =
     \<lparr>rootDirectory = rootDirectory',
      outputFile = outputFile',
      contents = ''# '' @ basename sep (normpath sep rootDirectory') @ [CHR 10],
      printed = {},
      emitted = []\<rparr>"

definition init ::
  "char \<Rightarrow> string \<Rightarrow> string \<Rightarrow> world \<Rightarrow> (outcome \<times> world) + generator" where
  "init sep rootDirectory' outputFile' w =
     (if root_node w = None
      then Inl (SystemExit 1, print (error_message rootDirectory') w)
      else Inr (new_generator sep rootDirectory' outputFile'))"

text \<open>
  \<open>open(name, 'w')\<close> and the writes, for a name in a directory: a file of that name is
  truncated where it stands in the listing, a new one is listed last.
\<close>

fun write_entry :: "string \<Rightarrow> string \<Rightarrow> (string \<times> node) list \<Rightarrow> (string \<times> node) list" where
  "write_entry name text [] = [(name, File text)]"
| "write_entry name text (e # entries) =
     (if fst e = name then (name, File text) # entries
      else e # write_entry name text entries)"

definition footer :: string where
  "footer = [CHR 10] @ ''---'' @ [CHR 10, CHR 10]
            @ ''*This documentation index was automatically generated.*'' @ [CHR 10]"

text \<open>
  \<open>_writeToFile\<close>, for the \<open>outputFile\<close> the script passes:
  \<open>os.path.join(rootDirectory, 'README.md')\<close>.
\<close>

definition writeToFile :: "generator \<Rightarrow> world \<Rightarrow> outcome \<times> world" where
  "writeToFile g w =
     (case root_node w of
        None \<Rightarrow> (FileNotFoundError, w)
      | Some (File text) \<Rightarrow> (NotADirectoryError, w)
      | Some (Dir entries) \<Rightarrow>
          (case map_of entries ''README.md'' of
             Some (Dir sub) \<Rightarrow> (IsADirectoryError, w)
           | _ \<Rightarrow> (Completed,
                   w\<lparr>root_node :=
                        Some (Dir (write_entry ''README.md'' (contents g @ footer) entries))\<rparr>)))"

definition generate :: "char \<Rightarrow> generator \<Rightarrow> world \<Rightarrow> outcome \<times> world" where
  "generate sep g w =
     (let g' = (case root_node w of None \<Rightarrow> g | Some n \<Rightarrow> walk sep [] n g)
      in writeToFile g' w)"

text \<open>The script, with \<open>rootDirectory\<close> the absolute path of its argument.\<close>

definition main :: "char \<Rightarrow> string \<Rightarrow> world \<Rightarrow> outcome \<times> world" where
  "main sep rootDirectory' w =
     (let outputFile' = path_join sep rootDirectory' ''README.md''
      in case init sep rootDirectory' outputFile' w of
           Inl r \<Rightarrow> r
         | Inr generator \<Rightarrow> generate sep generator w)"

section \<open>Vocabulary of the properties\<close>

text \<open>The generator when the loop of \<open>generate\<close> ends, for the script's arguments.\<close>

definition run_generator :: "char \<Rightarrow> string \<Rightarrow> node \<Rightarrow> generator" where
  "run_generator sep rootDirectory' root =
     walk sep [] root
       (new_generator sep rootDirectory' (path_join sep rootDirectory' ''README.md''))"

text \<open>What a list of names, read from a node downwards, leads to.\<close>

fun lookup :: "node \<Rightarrow> string list \<Rightarrow> node option" where
  "lookup n [] = Some n"
| "lookup (File text) (name # names) = None"
| "lookup (Dir entries) (name # names) =
     (case map_of entries name of None \<Rightarrow> None | Some child \<Rightarrow> lookup child names)"

fun is_file_at :: "node \<Rightarrow> string list \<Rightarrow> bool" where
  "is_file_at root path = (case lookup root path of Some (File text) \<Rightarrow> True | _ \<Rightarrow> False)"

text \<open>
  The names a file system gives: not empty, not \<open>.\<close> or \<open>..\<close>, without the separator and
  without the slash; and no name twice in a directory.
\<close>

definition wf_name :: "char \<Rightarrow> string \<Rightarrow> bool" where
  "wf_name sep name =
     (name \<noteq> [] \<and> name \<noteq> ''.'' \<and> name \<noteq> ''..'' \<and> sep \<notin> set name \<and> CHR ''/'' \<notin> set name)"

definition wf_names :: "char \<Rightarrow> string list \<Rightarrow> bool" where
  "wf_names sep names = (\<forall>name \<in> set names. wf_name sep name)"

fun wf_node :: "char \<Rightarrow> node \<Rightarrow> bool" where
  "wf_node sep (File text) = True"
| "wf_node sep (Dir entries) =
     (distinct (map fst entries)
      \<and> (\<forall>e \<in> set entries. wf_name sep (fst e) \<and> wf_node sep (snd e)))"

text \<open>A directory named \<open>.git\<close> or \<open>.github\<close> among the names from the root.\<close>

definition excluded :: "string list \<Rightarrow> bool" where
  "excluded rel = (''.git'' \<in> set rel \<or> ''.github'' \<in> set rel)"

text \<open>
  The files the index is to link: a file below the root, at the names \<open>directory\<close> and then
  \<open>file\<close>, whose name ends in \<open>.md\<close> and is not \<open>README.md\<close>, with no directory named
  \<open>.git\<close> or \<open>.github\<close> on the way.
\<close>

definition retained :: "node \<Rightarrow> string list \<Rightarrow> string \<Rightarrow> bool" where
  "retained root directory file =
     (is_file_at root (directory @ [file])
      \<and> endswith file ''.md'' \<and> file \<noteq> ''README.md''
      \<and> \<not> excluded directory)"

text \<open>The files linked and the keys headed, in the order of the events.\<close>

fun link_files :: "event list \<Rightarrow> string list" where
  "link_files [] = []"
| "link_files (Link file text # es) = file # link_files es"
| "link_files (Heading key text # es) = link_files es"

fun heading_keys :: "event list \<Rightarrow> string list" where
  "heading_keys [] = []"
| "heading_keys (Heading key text # es) = key # heading_keys es"
| "heading_keys (Link file text # es) = heading_keys es"

text \<open>
  The directories the loop of \<open>generate\<close> processes, in its order, each with its files
  after the filter: the same traversal as \<open>walk\<close>, without the generator. The lemma
  \<open>walk_visits\<close> shows that \<open>walk\<close> is \<open>visit\<close>, the call of \<open>_processDirectory\<close>, folded
  over this list.
\<close>

function visits :: "string list \<Rightarrow> node \<Rightarrow> (string list \<times> string list) list" where
  "visits directory (File text) = []"
| "visits directory (Dir entries) =
     (let subdirectories = map fst (filter (\<lambda>e. is_dir (snd e)) entries);
          files = map fst (filter (\<lambda>e. \<not> is_dir (snd e)) entries);
          (subdirectories', files', nonempty) = filterDirectory subdirectories files
      in (if nonempty then [(directory, files')] else [])
         @ concat (map (\<lambda>name. case map_of entries name of
                                   None \<Rightarrow> []
                                 | Some child \<Rightarrow> visits (directory @ [name]) child)
                       subdirectories'))"
  by pat_completeness auto

termination visits
proof (relation "measure (\<lambda>(directory, n). size n)")
  show "wf (measure (\<lambda>(directory, n). size n))" by simp
next
  fix directory :: "string list" and entries :: "(string \<times> node) list"
    and name :: string and child :: node
  assume "map_of entries name = Some child"
  then have "(name, child) \<in> set entries" by (rule map_of_SomeD)
  then have "size child < Suc (size_list (size_prod (\<lambda>_. 0) size) entries)"
    by (induction entries) auto
  then show "((directory @ [name], child), (directory, Dir entries))
               \<in> measure (\<lambda>(directory, n). size n)"
    by simp
qed

definition visit :: "char \<Rightarrow> string list \<times> string list \<Rightarrow> generator \<Rightarrow> generator" where
  "visit sep v g = processDirectory sep (fst v) (snd v) g"

text \<open>
  The files of a directory after the filter, and those of the root (none when the root
  is a file).
\<close>

definition entry_files :: "(string \<times> node) list \<Rightarrow> string list" where
  "entry_files entries =
     fst (snd (filterDirectory (map fst (filter (\<lambda>e. is_dir (snd e)) entries))
                               (map fst (filter (\<lambda>e. \<not> is_dir (snd e)) entries))))"


text \<open>A tree to try the properties on.\<close>

definition example_tree :: node where
  "example_tree =
     Dir [(''b.md'', File ''b''),
          (''docs'', Dir [(''x.md'', File ''x''),
                         (''sub'', Dir [(''y.md'', File ''y'')]),
                         (''img'', Dir [(''z.md'', File ''z'')])]),
          (''.github'', Dir [(''notes.md'', File ''n'')]),
          (''a.md'', File ''a''),
          (''README.md'', File ''old'')]"

section \<open>Vocabulary of the proofs\<close>

text \<open>
  The prefixes \<open>accumulated\<close> runs through in \<open>_addDirectoryHeadings\<close>, and the key and
  the heading of each: the event a prefix adds when its key is not printed yet.
\<close>

fun prefixes_from :: "string list \<Rightarrow> string list \<Rightarrow> string list list" where
  "prefixes_from accumulated [] = []"
| "prefixes_from accumulated (part # parts) =
     (accumulated @ [part]) # prefixes_from (accumulated @ [part]) parts"

definition heading_key :: "string list \<Rightarrow> string" where
  "heading_key p = str_join ''/'' p"

definition heading_text :: "string list \<Rightarrow> string" where
  "heading_text p = [CHR 10] @ replicate (length p + 1) (CHR ''#'') @ '' '' @ last p @ [CHR 10]"

definition heading_event :: "string list \<Rightarrow> event" where
  "heading_event p = Heading (heading_key p) (heading_text p)"

definition new_headings :: "string set \<Rightarrow> string list list \<Rightarrow> event list" where
  "new_headings P ps = map heading_event (filter (\<lambda>p. heading_key p \<notin> P) ps)"

text \<open>The path a file is linked by, and the event of its link.\<close>

definition file_path :: "char \<Rightarrow> string list \<Rightarrow> string \<Rightarrow> string" where
  "file_path sep directory file =
     (if relpath sep directory \<noteq> ''.'' then path_join sep (relpath sep directory) file else file)"

definition link_event :: "char \<Rightarrow> string list \<Rightarrow> string \<Rightarrow> event" where
  "link_event sep directory file =
     Link (file_path sep directory file) (generateLink sep (file_path sep directory file) @ [CHR 10])"

text \<open>The parts \<open>_processDirectory\<close> hands to \<open>_addDirectoryHeadings\<close>: none at the root.\<close>

definition dir_parts :: "char \<Rightarrow> string list \<Rightarrow> string list" where
  "dir_parts sep directory =
     (if relpath sep directory \<noteq> ''.'' then str_split sep (relpath sep directory) else [])"

text \<open>
  The events of a list of processed directories, from the printed keys \<open>P\<close>: what
  \<open>emitted\<close> gains (lemma \<open>fold_visit_emitted\<close>). A generator is \<open>rendered\<close> when its
  contents are a title followed by the texts of its events.
\<close>

fun trace :: "char \<Rightarrow> string set \<Rightarrow> (string list \<times> string list) list \<Rightarrow> event list" where
  "trace sep P [] = []"
| "trace sep P (v # vs) =
     (new_headings P (prefixes_from [] (dir_parts sep (fst v)))
      @ map (link_event sep (fst v)) (sort (snd v)))
     @ trace sep (P \<union> heading_key ` set (prefixes_from [] (dir_parts sep (fst v)))) vs"

definition rendered :: "string \<Rightarrow> generator \<Rightarrow> bool" where
  "rendered title g = (contents g = title @ concat (map event_text (emitted g)))"

definition entry_subdirectories :: "(string \<times> node) list \<Rightarrow> string list" where
  "entry_subdirectories entries =
     filter (\<lambda>s. s \<notin> set [''.git'', ''.github''])
             (map fst (filter (\<lambda>e. is_dir (snd e)) entries))"



section \<open>Vocabulary of the index text\<close>

text \<open>
  The line the index is to hold for the file \<open>file\<close> of the directory \<open>directory\<close> (names
  from the root), written without reference to \<open>_generateLink\<close>: a bullet, the title in square
  brackets, the path with forward slashes in parentheses. The title is the name without its
  final \<open>.md\<close>, except that a name whose part before \<open>.md\<close> is empty or only dots is its own
  title, as \<open>os.path.splitext\<close> never splits inside the leading dots of a name.
\<close>

definition link_title :: "string \<Rightarrow> string" where
  "link_title file =
     (let stem = take (length file - 3) file
      in if set stem \<subseteq> {CHR ''.''} then file else stem)"

definition link_line :: "string list \<Rightarrow> string \<Rightarrow> string" where
  "link_line directory file =
     ''- ['' @ link_title file @ '']('' @ str_join ''/'' (directory @ [file]) @ '')''"

text \<open>A tree whose only documentation file is named \<open>.md\<close>.\<close>

definition dot_tree :: node where
  "dot_tree = Dir [(''docs'', Dir [(''.md'', File '''')])]"

text \<open>No file or directory of the tree has a line feed in its name.\<close>

fun single_line_names :: "node \<Rightarrow> bool" where
  "single_line_names (File text) = True"
| "single_line_names (Dir entries) =
     (\<forall>e \<in> set entries. CHR 10 \<notin> set (fst e) \<and> single_line_names (snd e))"

text \<open>
  The lines an event adds to the index: an empty line and the heading line, or the link line.
  An event is a \<open>line_event\<close> when its text has this shape, and a line is a \<open>bullet\<close> when it
  begins as a link does.
\<close>

fun event_lines :: "event \<Rightarrow> string list" where
  "event_lines (Heading key text) = [[], butlast (tl text)]"
| "event_lines (Link file text) = [butlast text]"

fun line_event :: "event \<Rightarrow> bool" where
  "line_event (Heading key text) = (\<exists>l. text = CHR 10 # l @ [CHR 10] \<and> CHR 10 \<notin> set l)"
| "line_event (Link file text) = (\<exists>l. text = l @ [CHR 10] \<and> CHR 10 \<notin> set l)"

definition bullet :: "string \<Rightarrow> bool" where
  "bullet l = (take 3 l = ''- ['')"

text \<open>A processed directory whose names are well formed and free of line feeds.\<close>

definition plain_visit :: "char \<Rightarrow> string list \<times> string list \<Rightarrow> bool" where
  "plain_visit sep v =
     (wf_names sep (fst v) \<and> wf_names sep (snd v)
      \<and> (\<forall>f \<in> set (snd v). endswith f ''.md'')
      \<and> (\<forall>x \<in> set (fst v) \<union> set (snd v). CHR 10 \<notin> set x))"

text \<open>
  A tree with a directory whose name holds a line feed followed by the text of a link line.
\<close>

definition nl_tree :: node where
  "nl_tree =
     Dir [(''g.md'', File ''''),
          (''a'' @ [CHR 10] @ ''- [g](g.md)'', Dir [(''x.md'', File '''')])]"

section \<open>Strings and paths\<close>

lemma rfind_absent: "c \<notin> set s \<Longrightarrow> rfind s c = - 1"
  by (simp add: rfind_def)

lemma rfind_last: "c \<notin> set t \<Longrightarrow> rfind (s @ c # t) c = int (length s)"
proof -
  assume a: "c \<notin> set t"
  then have "takeWhile (\<lambda>x. x \<noteq> c) (rev t @ c # rev s) = rev t"
    by (simp add: takeWhile_append)
  then show ?thesis by (simp add: rfind_def)
qed

lemma basename_plain: "sep \<notin> set name \<Longrightarrow> basename sep name = name"
  by (simp add: basename_def rfind_absent)

lemma basename_append: "sep \<notin> set name \<Longrightarrow> basename sep (d @ sep # name) = name"
proof -
  assume "sep \<notin> set name"
  then have "rfind (d @ sep # name) sep = int (length d)" by (rule rfind_last)
  then have "nat (rfind (d @ sep # name) sep + 1) = Suc (length d)" by simp
  then show ?thesis by (simp add: basename_def)
qed

lemma str_replace_absent: "old \<notin> set s \<Longrightarrow> str_replace old new s = s"
  unfolding str_replace_def by (induction s) auto

lemma splitext_last_dot:
  assumes "sep \<notin> set (stem @ CHR ''.'' # ext)" "CHR ''.'' \<notin> set ext" "has_non_dot stem"
  shows "splitext sep (stem @ CHR ''.'' # ext) = (stem, CHR ''.'' # ext)"
  using assms by (simp add: splitext_def rfind_absent rfind_last)

lemma splitext_all_dots:
  assumes "sep \<notin> set (stem @ CHR ''.'' # ext)" "CHR ''.'' \<notin> set ext" "\<not> has_non_dot stem"
  shows "splitext sep (stem @ CHR ''.'' # ext) = (stem @ CHR ''.'' # ext, [])"
  using assms by (simp add: splitext_def rfind_absent rfind_last)

section \<open>The run as a list of events\<close>

lemma visit_pair: "visit sep (d, fs) g = processDirectory sep d fs g"
  by (simp add: visit_def)

lemma fold_concat_map:
  "fold f (concat (map h xs)) g = fold (\<lambda>x. fold f (h x)) xs g"
  by (induction xs arbitrary: g) auto

lemma walk_visits: "walk sep directory n g = fold (visit sep) (visits directory n) g"
proof (induction sep directory n g rule: walk.induct)
  case (1 sep directory t g)
  then show ?case by simp
next
  case (2 sep directory entries g)
  obtain subs files nonempty where f:
    "filterDirectory (map fst (filter (\<lambda>e. is_dir (snd e)) entries))
        (map fst (filter (\<lambda>e. \<not> is_dir (snd e)) entries)) = (subs, files, nonempty)"
    by (cases "filterDirectory (map fst (filter (\<lambda>e. is_dir (snd e)) entries))
        (map fst (filter (\<lambda>e. \<not> is_dir (snd e)) entries))") auto
  have ih: "\<And>name child g'. name \<in> set subs \<Longrightarrow> map_of entries name = Some child \<Longrightarrow>
     walk sep (directory @ [name]) child g' = fold (visit sep) (visits (directory @ [name]) child) g'"
    using "2.IH" [OF refl refl f [symmetric] refl refl] by simp
  have step: "\<And>g'. fold (\<lambda>name g. case map_of entries name of None \<Rightarrow> g
                 | Some child \<Rightarrow> walk sep (directory @ [name]) child g) subs g'
     = fold (\<lambda>name. fold (visit sep) (case map_of entries name of None \<Rightarrow> []
                 | Some child \<Rightarrow> visits (directory @ [name]) child)) subs g'"
  proof -
    fix g'
    show "fold (\<lambda>name g. case map_of entries name of None \<Rightarrow> g
                 | Some child \<Rightarrow> walk sep (directory @ [name]) child g) subs g'
     = fold (\<lambda>name. fold (visit sep) (case map_of entries name of None \<Rightarrow> []
                 | Some child \<Rightarrow> visits (directory @ [name]) child)) subs g'"
    proof (rule fold_cong)
      fix name assume "name \<in> set subs"
      then show "(\<lambda>g. case map_of entries name of None \<Rightarrow> g
                 | Some child \<Rightarrow> walk sep (directory @ [name]) child g)
          = fold (visit sep) (case map_of entries name of None \<Rightarrow> []
                 | Some child \<Rightarrow> visits (directory @ [name]) child)"
        by (auto simp: ih split: option.splits)
    qed simp_all
  qed
  show ?case
    by (simp add: f step fold_concat_map visit_pair)
qed

lemma str_join_append:
  "xs \<noteq> [] \<Longrightarrow> ys \<noteq> [] \<Longrightarrow> str_join s (xs @ ys) = str_join s xs @ s @ str_join s ys"
proof (induction s xs rule: str_join.induct)
  case (1 s)
  then show ?case by simp
next
  case (2 s x)
  then show ?case by (cases ys) auto
next
  case (3 s x y ys)
  then show ?case by simp
qed

lemma prefixes_from_longer:
  "p \<in> set (prefixes_from acc parts) \<Longrightarrow> \<exists>more. more \<noteq> [] \<and> p = acc @ more"
  by (induction acc parts rule: prefixes_from.induct) auto

lemma heading_key_longer:
  assumes "p \<in> set (prefixes_from (acc @ [part]) parts)"
  shows "heading_key p \<noteq> heading_key (acc @ [part])"
proof -
  obtain more where m: "more \<noteq> []" "p = (acc @ [part]) @ more"
    using prefixes_from_longer [OF assms] by blast
  have "length (heading_key p) > length (heading_key (acc @ [part]))"
    unfolding heading_key_def m(2) using m(1)
    by (subst str_join_append) auto
  then show ?thesis by auto
qed

lemma loop_fields:
  "rootDirectory (addDirectoryHeadings_loop i acc parts g) = rootDirectory g
   \<and> outputFile (addDirectoryHeadings_loop i acc parts g) = outputFile g"
  by (induction i acc parts g rule: addDirectoryHeadings_loop.induct) (auto simp: Let_def)

lemma loop_printed:
  "printed (addDirectoryHeadings_loop i acc parts g)
   = printed g \<union> heading_key ` set (prefixes_from acc parts)"
  by (induction i acc parts g rule: addDirectoryHeadings_loop.induct)
     (auto simp: Let_def heading_key_def)

lemma new_headings_insert:
  "\<forall>p \<in> set ps. heading_key p \<noteq> k \<Longrightarrow> new_headings (insert k P) ps = new_headings P ps"
  unfolding new_headings_def by (induction ps) auto

lemma loop_emitted:
  "i = length acc \<Longrightarrow>
   emitted (addDirectoryHeadings_loop i acc parts g)
   = emitted g @ new_headings (printed g) (prefixes_from acc parts)"
proof (induction i acc parts g rule: addDirectoryHeadings_loop.induct)
  case (1 i accumulated g)
  then show ?case by (simp add: new_headings_def)
next
  case (2 i accumulated part parts g)
  let ?p = "accumulated @ [part]"
  have ne: "\<forall>p \<in> set (prefixes_from ?p parts). heading_key p \<noteq> heading_key ?p"
    using heading_key_longer by blast
  have t: "[CHR 10] @ replicate (i + 2) (CHR ''#'') @ '' '' @ part @ [CHR 10] = heading_text ?p"
    using "2.prems" by (simp add: heading_text_def)
  show ?case
  proof (cases "heading_key ?p \<in> printed g")
    case True
    then show ?thesis
      using "2.IH" [OF refl refl refl] "2.prems"
      by (simp add: Let_def heading_key_def [symmetric] new_headings_def)
  next
    case False
    have "emitted (addDirectoryHeadings_loop i accumulated (part # parts) g)
        = (emitted g @ [heading_event ?p]) @ new_headings (insert (heading_key ?p) (printed g)) (prefixes_from ?p parts)"
      using "2.IH" [OF refl refl refl] "2.prems" False t
      by (simp add: Let_def heading_key_def [symmetric] heading_event_def)
    also have "\<dots> = emitted g @ new_headings (printed g) (prefixes_from accumulated (part # parts))"
      using False by (simp add: new_headings_insert [OF ne]) (simp add: new_headings_def)
    finally show ?thesis .
  qed
qed

lemma loop_rendered:
  "rendered title g \<Longrightarrow> rendered title (addDirectoryHeadings_loop i acc parts g)"
  by (induction i acc parts g rule: addDirectoryHeadings_loop.induct)
     (auto simp: Let_def rendered_def)

lemma addLink_rendered: "rendered title g \<Longrightarrow> rendered title (addLink sep rel file g)"
  by (simp add: addLink_def Let_def rendered_def)

lemma addLink_emitted:
  "emitted (addLink sep (relpath sep d) file g) = emitted g @ [link_event sep d file]"
  by (simp add: addLink_def Let_def link_event_def file_path_def)

lemma addLink_printed: "printed (addLink sep rel file g) = printed g"
  by (simp add: addLink_def Let_def)

lemma fold_addLink_rendered:
  "rendered title g \<Longrightarrow> rendered title (fold (addLink sep rel) fs g)"
  by (induction fs arbitrary: g) (auto simp: addLink_rendered)

lemma fold_addLink_emitted:
  "emitted (fold (addLink sep (relpath sep d)) fs g) = emitted g @ map (link_event sep d) fs"
  by (induction fs arbitrary: g) (auto simp: addLink_emitted)

lemma fold_addLink_printed: "printed (fold (addLink sep rel) fs g) = printed g"
  by (induction fs arbitrary: g) (auto simp: addLink_printed)

lemma processDirectory_rendered:
  "rendered title g \<Longrightarrow> rendered title (processDirectory sep d fs g)"
  by (simp add: processDirectory_def Let_def addDirectoryHeadings_def fold_addLink_rendered
      loop_rendered)

lemma processDirectory_emitted:
  "emitted (processDirectory sep d fs g)
   = emitted g @ new_headings (printed g) (prefixes_from [] (dir_parts sep d))
     @ map (link_event sep d) (sort fs)"
  by (simp add: processDirectory_def Let_def addDirectoryHeadings_def fold_addLink_emitted
      loop_emitted dir_parts_def new_headings_def)

lemma processDirectory_printed:
  "printed (processDirectory sep d fs g)
   = printed g \<union> heading_key ` set (prefixes_from [] (dir_parts sep d))"
  by (simp add: processDirectory_def Let_def addDirectoryHeadings_def fold_addLink_printed
      loop_printed dir_parts_def)

lemma fold_visit_rendered:
  "rendered title g \<Longrightarrow> rendered title (fold (visit sep) vs g)"
  by (induction vs arbitrary: g) (auto simp: visit_def processDirectory_rendered)

lemma fold_visit_emitted:
  "emitted (fold (visit sep) vs g) = emitted g @ trace sep (printed g) vs"
  by (induction vs arbitrary: g)
     (auto simp: visit_def processDirectory_emitted processDirectory_printed)

lemma fold_visit_printed:
  "printed (fold (visit sep) vs g)
   = printed g \<union> (\<Union>v \<in> set vs. heading_key ` set (prefixes_from [] (dir_parts sep (fst v))))"
  by (induction vs arbitrary: g)
     (auto simp: visit_def processDirectory_printed)

lemma new_generator_rendered:
  "rendered (''# '' @ basename sep (normpath sep r) @ [CHR 10]) (new_generator sep r out)"
  by (simp add: rendered_def new_generator_def)

lemma run_generator_emitted:
  "emitted (run_generator sep r root) = trace sep {} (visits [] root)"
  by (simp add: run_generator_def walk_visits fold_visit_emitted new_generator_def)

lemma run_generator_contents:
  "contents (run_generator sep r root)
   = ''# '' @ basename sep (normpath sep r) @ [CHR 10]
     @ concat (map event_text (emitted (run_generator sep r root)))"
  using fold_visit_rendered [OF new_generator_rendered]
  by (simp add: run_generator_def walk_visits rendered_def)

section \<open>The directories processed\<close>

lemma visits_Dir:
  "visits d (Dir entries) =
     (if entry_files entries \<noteq> [] then [(d, entry_files entries)] else [])
     @ concat (map (\<lambda>name. case map_of entries name of None \<Rightarrow> []
                            | Some child \<Rightarrow> visits (d @ [name]) child)
          (filter (\<lambda>s. s \<notin> set [''.git'', ''.github''])
             (map fst (filter (\<lambda>e. is_dir (snd e)) entries))))"
  by (simp add: entry_files_def filterDirectory_def Let_def)

declare visits.simps(2) [simp del]

lemma in_visits_Dir:
  "(dir, fs) \<in> set (visits d (Dir entries)) \<longleftrightarrow>
     (dir = d \<and> fs = entry_files entries \<and> fs \<noteq> [])
     \<or> (\<exists>name child. name \<in> set (entry_subdirectories entries)
           \<and> map_of entries name = Some child
           \<and> (dir, fs) \<in> set (visits (d @ [name]) child))"
proof -
  have c: "\<And>name. (dir, fs) \<in> set (case map_of entries name of None \<Rightarrow> []
                            | Some child \<Rightarrow> visits (d @ [name]) child)
      \<longleftrightarrow> (\<exists>child. map_of entries name = Some child
             \<and> (dir, fs) \<in> set (visits (d @ [name]) child))"
    by (case_tac "map_of entries name") auto
  show ?thesis
  proof -
    have "(dir, fs) \<in> set (visits d (Dir entries)) \<longleftrightarrow>
       (dir, fs) \<in> set (if entry_files entries \<noteq> [] then [(d, entry_files entries)] else [])
       \<or> (\<exists>name \<in> set (entry_subdirectories entries).
             (dir, fs) \<in> set (case map_of entries name of None \<Rightarrow> []
                            | Some child \<Rightarrow> visits (d @ [name]) child))"
      unfolding visits_Dir entry_subdirectories_def [symmetric] set_append Un_iff set_concat
        set_map by blast
    then show ?thesis unfolding c by auto
  qed
qed

lemma visits_sound:
  "(dir, fs) \<in> set (visits d n) \<Longrightarrow>
   \<exists>rel entries. dir = d @ rel \<and> lookup n rel = Some (Dir entries) \<and> \<not> excluded rel
      \<and> fs = entry_files entries \<and> fs \<noteq> []"
proof (induction d n arbitrary: dir fs rule: visits.induct)
  case (1 directory t)
  then show ?case by simp
next
  case (2 directory entries)
  from "2.prems" consider
    (here) "dir = directory" "fs = entry_files entries" "fs \<noteq> []"
    | (below) name child where "name \<in> set (entry_subdirectories entries)"
        "map_of entries name = Some child"
        "(dir, fs) \<in> set (visits (directory @ [name]) child)"
    unfolding in_visits_Dir by blast
  then show ?case
  proof cases
    case here
    then show ?thesis
      by (intro exI [of _ "[]"] exI [of _ entries]) (simp add: excluded_def)
  next
    case below
    have "\<exists>rel entries'. dir = (directory @ [name]) @ rel \<and> lookup child rel = Some (Dir entries')
        \<and> \<not> excluded rel \<and> fs = entry_files entries' \<and> fs \<noteq> []"
      using below(1)
      by (intro "2.IH" [OF refl refl _ refl refl _ below(2) below(3)])
         (force simp: filterDirectory_def Let_def entry_subdirectories_def)+
    then obtain rel entries' where r: "dir = (directory @ [name]) @ rel"
      "lookup child rel = Some (Dir entries')" "\<not> excluded rel" "fs = entry_files entries'" "fs \<noteq> []"
      by blast
    have "\<not> excluded (name # rel)"
      using r(3) below(1) by (auto simp: excluded_def entry_subdirectories_def)
    then show ?thesis
      using r below(2)
      by (intro exI [of _ "name # rel"] exI [of _ entries']) simp
  qed
qed

lemma lookup_Some_Dir_is_dir: "lookup child rel = Some (Dir es) \<Longrightarrow> is_dir child"
  by (cases child; cases rel) auto

lemma visits_complete:
  "lookup n rel = Some (Dir entries) \<Longrightarrow> \<not> excluded rel \<Longrightarrow> entry_files entries \<noteq> [] \<Longrightarrow>
   (d @ rel, entry_files entries) \<in> set (visits d n)"
proof (induction rel arbitrary: d n)
  case Nil
  then show ?case by (simp add: in_visits_Dir)
next
  case (Cons name rel)
  from Cons.prems(1) obtain es child where n: "n = Dir es" "map_of es name = Some child"
    "lookup child rel = Some (Dir entries)"
    by (cases n) (auto split: option.splits)
  have "(name, child) \<in> set es" using n(2) by (rule map_of_SomeD)
  moreover have "is_dir child" using n(3) by (rule lookup_Some_Dir_is_dir)
  ultimately have "name \<in> fst ` {e \<in> set es. is_dir (snd e)}" by force
  moreover have ex: "name \<noteq> ''.git''" "name \<noteq> ''.github''" "\<not> excluded rel"
    using Cons.prems(2) by (auto simp: excluded_def)
  ultimately have "name \<in> set (entry_subdirectories es)"
    unfolding entry_subdirectories_def by simp
  moreover have "((d @ [name]) @ rel, entry_files entries) \<in> set (visits (d @ [name]) child)"
    using Cons.IH [OF n(3) ex(3) Cons.prems(3)] .
  ultimately show ?case
    unfolding n(1) in_visits_Dir using n(2) by auto
qed

section \<open>Paths of well-formed names\<close>

lemma str_split_plain: "c \<notin> set x \<Longrightarrow> str_split c x = [x]"
  by (induction x) auto

lemma str_split_cons: "c \<notin> set x \<Longrightarrow> str_split c (x @ c # rest) = x # str_split c rest"
  by (induction x) auto

lemma str_split_join:
  "xs \<noteq> [] \<Longrightarrow> \<forall>x \<in> set xs. c \<notin> set x \<Longrightarrow> str_split c (str_join [c] xs) = xs"
proof (induction "[c]" xs rule: str_join.induct)
  case 1
  then show ?case by simp
next
  case (2 x)
  then show ?case by (simp add: str_split_plain)
next
  case (3 x y ys)
  then show ?case by (simp add: str_split_cons)
qed

lemma str_join_inj:
  assumes "xs \<noteq> []" "ys \<noteq> []" "\<forall>x \<in> set xs. c \<notin> set x" "\<forall>y \<in> set ys. c \<notin> set y"
    and "str_join [c] xs = str_join [c] ys"
  shows "xs = ys"
proof -
  have "str_split c (str_join [c] xs) = str_split c (str_join [c] ys)"
    using assms(5) by simp
  then show ?thesis
    using assms(1-4) by (simp add: str_split_join)
qed

lemma str_join_nonempty_last:
  "xs \<noteq> [] \<Longrightarrow> last xs \<noteq> [] \<Longrightarrow> str_join s xs \<noteq> []"
  by (induction s xs rule: str_join.induct) auto

lemma str_join_last:
  "xs \<noteq> [] \<Longrightarrow> last xs \<noteq> [] \<Longrightarrow> last (str_join s xs) = last (last xs)"
proof (induction s xs rule: str_join.induct)
  case (1 s)
  then show ?case by simp
next
  case (2 s x)
  then show ?case by simp
next
  case (3 s x y ys)
  have "str_join s (y # ys) \<noteq> []"
    using "3.prems" by (intro str_join_nonempty_last) auto
  then show ?case using 3 by simp
qed

lemma str_join_nonempty:
  "xs \<noteq> [] \<Longrightarrow> \<forall>x \<in> set xs. x \<noteq> [] \<Longrightarrow> str_join s xs \<noteq> []"
  by (induction s xs rule: str_join.induct) auto

lemma str_replace_join:
  "\<forall>x \<in> set xs. c \<notin> set x \<Longrightarrow> str_replace c c' (str_join [c] xs) = str_join [c'] xs"
proof (induction "[c]" xs rule: str_join.induct)
  case 1
  then show ?case by (simp add: str_replace_def)
next
  case (2 x)
  then show ?case using str_replace_absent [of c x c'] by simp
next
  case (3 x y ys)
  then show ?case
    using str_replace_absent [of c x c'] by (simp add: str_replace_def)
qed

lemma relpath_dot: "wf_names sep d \<Longrightarrow> relpath sep d = ''.'' \<longleftrightarrow> d = []"
proof (cases d)
  case Nil
  then show ?thesis by (simp add: relpath_def)
next
  case (Cons x xs)
  assume w: "wf_names sep d"
  show ?thesis
  proof (cases xs)
    case Nil
    then show ?thesis using w Cons by (simp add: relpath_def wf_names_def wf_name_def)
  next
    case (Cons y ys)
    have "x \<noteq> []" using w \<open>d = x # xs\<close> by (simp add: wf_names_def wf_name_def)
    then have "str_join [sep] (x # y # ys) \<noteq> ''.''"
      by (cases x) auto
    then show ?thesis using Cons \<open>d = x # xs\<close> by (simp add: relpath_def)
  qed
qed

lemma dir_parts_wf: "wf_names sep d \<Longrightarrow> dir_parts sep d = d"
proof (cases "d = []")
  case True
  then show ?thesis by (simp add: dir_parts_def relpath_def)
next
  case False
  assume w: "wf_names sep d"
  have "str_split sep (str_join [sep] d) = d"
    using False w by (intro str_split_join) (auto simp: wf_names_def wf_name_def)
  then show ?thesis
    using False relpath_dot [OF w] by (simp add: dir_parts_def) (simp add: relpath_def)
qed

lemma file_path_wf:
  assumes "wf_names sep d" "wf_name sep f"
  shows "file_path sep d f = str_join [sep] (d @ [f])"
proof (cases "d = []")
  case True
  then show ?thesis by (simp add: file_path_def relpath_def)
next
  case False
  have f: "f \<noteq> []" "hd f \<noteq> sep"
    using assms(2) hd_in_set [of f] by (auto simp: wf_name_def)
  have l: "last d \<noteq> []" "sep \<notin> set (last d)"
    using assms(1) False last_in_set [OF False] by (auto simp: wf_names_def wf_name_def)
  have "last (str_join [sep] d) = last (last d)"
    using False l(1) by (rule str_join_last)
  then have a: "last (str_join [sep] d) \<noteq> sep"
    using l last_in_set [OF l(1)] by auto
  have b: "str_join [sep] d \<noteq> []"
    using False l(1) by (rule str_join_nonempty_last)
  have r: "relpath sep d = str_join [sep] d"
    using False by (simp add: relpath_def)
  have nd: "relpath sep d \<noteq> ''.''"
    using relpath_dot [OF assms(1)] False by blast
  have "file_path sep d f = path_join sep (str_join [sep] d) f"
    using nd unfolding file_path_def r by simp
  also have "\<dots> = str_join [sep] d @ [sep] @ f"
    using f a b by (simp add: path_join_def)
  finally have "file_path sep d f = str_join [sep] d @ [sep] @ f" .
  also have "\<dots> = str_join [sep] (d @ [f])"
    using False by (simp add: str_join_append)
  finally show ?thesis .
qed


lemma heading_key_inj:
  assumes "wf_names sep p" "wf_names sep q" "p \<noteq> []" "q \<noteq> []"
    and "heading_key p = heading_key q"
  shows "p = q"
  using assms unfolding heading_key_def
  by (intro str_join_inj [of p q "CHR ''/''"]) (auto simp: wf_names_def wf_name_def)

lemma generateLink_wf:
  assumes "wf_names sep d" "wf_name sep f"
  shows "generateLink sep (file_path sep d f)
         = ''- ['' @ fst (splitext sep f) @ '']('' @ str_join ''/'' (d @ [f]) @ '')''"
proof -
  have sf: "sep \<notin> set f" using assms(2) by (simp add: wf_name_def)
  have b: "basename sep (file_path sep d f) = f"
  proof (cases "d = []")
    case True
    then show ?thesis using sf by (simp add: file_path_def relpath_def basename_plain)
  next
    case False
    then have "file_path sep d f = str_join [sep] d @ sep # f"
      using file_path_wf [OF assms] by (simp add: str_join_append)
    then show ?thesis using sf by (simp add: basename_append)
  qed
  have r: "str_replace sep (CHR ''/'') (file_path sep d f) = str_join ''/'' (d @ [f])"
    unfolding file_path_wf [OF assms]
    using assms by (intro str_replace_join) (auto simp: wf_names_def wf_name_def)
  show ?thesis unfolding generateLink_def Let_def b r by simp
qed

section \<open>Link text\<close>

text \<open>
  C9, as stated, fails: a file named \<open>.md\<close> passes the filter, but its link text is not
  empty, since \<open>os.path.splitext\<close> counts the leading dot of a name as part of the root.
\<close>

theorem C9_dot_md_counterexample:
  "\<not> (fst (snd (filterDirectory [] [''.md''])) = [''.md'']
      \<and> generateLink (CHR ''/'') ''.md'' = ''- [](.md)'')"
  by (simp add: generateLink_def basename_def splitext_def rfind_def str_replace_def)

text \<open>
  C9, amended. A file named \<open>.md\<close> passes the filter, and in the root its link is
  \<open>- [.md](.md)\<close>: the link text is the whole name.
\<close>

theorem C9_dot_md_link:
  "filterDirectory subdirectories [''.md'']
     = (filter (\<lambda>d. d \<notin> set [''.git'', ''.github'']) subdirectories, [''.md''], True)
   \<and> generateLink (CHR ''/'') ''.md'' = ''- [.md](.md)''
   \<and> contents (processDirectory (CHR ''/'') [] [''.md''] g)
       = contents g @ ''- [.md](.md)'' @ [CHR 10]"
proof -
  have l: "generateLink (CHR ''/'') ''.md'' = ''- [.md](.md)''"
    by (simp add: generateLink_def basename_def splitext_def rfind_def str_replace_def)
  have f: "filterDirectory subdirectories [''.md'']
     = (filter (\<lambda>d. d \<notin> set [''.git'', ''.github'']) subdirectories, [''.md''], True)"
    by (simp add: filterDirectory_def endswith_def)
  have p: "contents (processDirectory (CHR ''/'') [] [''.md''] g)
       = contents g @ generateLink (CHR ''/'') ''.md'' @ [CHR 10]"
    by (simp add: processDirectory_def relpath_def addLink_def Let_def)
  show ?thesis using l f p by simp
qed

section \<open>A missing root directory\<close>

lemma main_missing_root:
  "root_node w = None \<Longrightarrow>
   main sep rootDirectory' w
     = (SystemExit 1, w\<lparr>stdout := stdout w @ error_message rootDirectory' @ [CHR 10]\<rparr>)"
  unfolding main_def init_def print_def Let_def by simp

text \<open>
  C2, as stated, fails: with no root directory the process ends with status 1 and the
  output file is not touched, but nothing is written to standard error.
\<close>

theorem C2_stderr_counterexample:
  "\<not> (stderr (snd (main (CHR ''/'') ''/x'' \<lparr>root_node = None, stdout = [], stderr = []\<rparr>))
        \<noteq> stderr \<lparr>root_node = None, stdout = [], stderr = []\<rparr>
      \<and> exit_status (fst (main (CHR ''/'') ''/x'' \<lparr>root_node = None, stdout = [], stderr = []\<rparr>)) = 1
      \<and> root_node (snd (main (CHR ''/'') ''/x'' \<lparr>root_node = None, stdout = [], stderr = []\<rparr>)) = None)"
  unfolding main_def init_def print_def Let_def by simp

text \<open>
  C2, amended. If the root directory does not exist, the process writes the error
  message and a newline to standard output, leaves standard error as it was, ends with
  exit status 1, and leaves the file system as it was: no \<open>README.md\<close> is created or
  modified.
\<close>

theorem C2_missing_root:
  assumes "root_node w = None"
  shows "exit_status (fst (main sep rootDirectory' w)) = 1
       \<and> stdout (snd (main sep rootDirectory' w))
           = stdout w @ error_message rootDirectory' @ [CHR 10]
       \<and> stderr (snd (main sep rootDirectory' w)) = stderr w
       \<and> root_node (snd (main sep rootDirectory' w)) = root_node w"
  unfolding main_missing_root [OF assms] by simp

theorem C2_missing_root_witness:
  "root_node \<lparr>root_node = None, stdout = [], stderr = []\<rparr> = None
   \<and> exit_status (fst (main (CHR ''/'') ''/x'' \<lparr>root_node = None, stdout = [], stderr = []\<rparr>)) = 1
   \<and> stdout (snd (main (CHR ''/'') ''/x'' \<lparr>root_node = None, stdout = [], stderr = []\<rparr>))
       = error_message ''/x'' @ [CHR 10]
   \<and> stderr (snd (main (CHR ''/'') ''/x'' \<lparr>root_node = None, stdout = [], stderr = []\<rparr>)) = []"
  using C2_missing_root [of "\<lparr>root_node = None, stdout = [], stderr = []\<rparr>" "CHR ''/''" "''/x''"]
  by simp

section \<open>Well-formed trees\<close>

lemma lookup_append:
  "lookup n (xs @ ys) = (case lookup n xs of None \<Rightarrow> None | Some m \<Rightarrow> lookup m ys)"
proof (induction n xs rule: lookup.induct)
  case (1 n)
  then show ?case by simp
next
  case (2 t name names)
  then show ?case by simp
next
  case (3 entries name names)
  then show ?case by (cases "map_of entries name") auto
qed

lemma lookup_wf:
  "wf_node sep n \<Longrightarrow> lookup n rel = Some m \<Longrightarrow> wf_names sep rel \<and> wf_node sep m"
proof (induction n rel rule: lookup.induct)
  case (1 n)
  then show ?case by (simp add: wf_names_def)
next
  case (2 t name names)
  then show ?case by simp
next
  case (3 entries name names)
  from "3.prems"(2) obtain child where c: "map_of entries name = Some child"
    "lookup child names = Some m"
    by (cases "map_of entries name") auto
  have "(name, child) \<in> set entries" using c(1) by (rule map_of_SomeD)
  then have w: "wf_name sep name" "wf_node sep child"
    using "3.prems"(1) by auto
  have "wf_names sep names \<and> wf_node sep m"
    using "3.IH" [OF c(1) w(2) c(2)] .
  then show ?case using w(1) by (simp add: wf_names_def)
qed

lemma entry_files_iff:
  assumes "distinct (map fst entries)"
  shows "f \<in> set (entry_files entries) \<longleftrightarrow>
     (\<exists>t. map_of entries f = Some (File t)) \<and> endswith f ''.md'' \<and> f \<noteq> ''README.md''"
proof -
  have "f \<in> fst ` {e \<in> set entries. \<not> is_dir (snd e)} \<longleftrightarrow> (\<exists>t. (f, File t) \<in> set entries)"
  proof
    assume "f \<in> fst ` {e \<in> set entries. \<not> is_dir (snd e)}"
    then obtain c where "(f, c) \<in> set entries" "\<not> is_dir c" by auto
    then show "\<exists>t. (f, File t) \<in> set entries" by (cases c) auto
  next
    assume "\<exists>t. (f, File t) \<in> set entries"
    then show "f \<in> fst ` {e \<in> set entries. \<not> is_dir (snd e)}" by force
  qed
  also have "\<dots> \<longleftrightarrow> (\<exists>t. map_of entries f = Some (File t))"
    using assms by simp
  finally show ?thesis
    by (auto simp: entry_files_def filterDirectory_def Let_def)
qed

lemma entry_files_distinct: "distinct (map fst entries) \<Longrightarrow> distinct (entry_files entries)"
  by (simp add: entry_files_def filterDirectory_def Let_def distinct_map_filter)

lemma entry_files_wf:
  "wf_node sep (Dir entries) \<Longrightarrow> wf_names sep (entry_files entries)"
  by (auto simp: entry_files_def filterDirectory_def Let_def wf_names_def)

lemma visits_retained:
  assumes "wf_node sep root"
  shows "retained root d f \<longleftrightarrow> (\<exists>fs. (d, fs) \<in> set (visits [] root) \<and> f \<in> set fs)"
proof
  assume r: "retained root d f"
  then obtain t where t: "lookup root (d @ [f]) = Some (File t)"
    by (auto simp: retained_def split: option.splits node.splits)
  then obtain m where m: "lookup root d = Some m" "lookup m [f] = Some (File t)"
    by (auto simp: lookup_append split: option.splits)
  then obtain entries where e: "m = Dir entries" "map_of entries f = Some (File t)"
    by (cases m) (auto split: option.splits)
  have "wf_node sep (Dir entries)"
    using lookup_wf [OF assms m(1)] e(1) by simp
  then have "f \<in> set (entry_files entries)"
    using e(2) r by (simp add: entry_files_iff retained_def)
  moreover have "([] @ d, entry_files entries) \<in> set (visits [] root)"
    using m(1) e(1) r calculation by (intro visits_complete) (auto simp: retained_def)
  ultimately show "\<exists>fs. (d, fs) \<in> set (visits [] root) \<and> f \<in> set fs" by auto
next
  assume "\<exists>fs. (d, fs) \<in> set (visits [] root) \<and> f \<in> set fs"
  then obtain fs where v: "(d, fs) \<in> set (visits [] root)" "f \<in> set fs" by blast
  obtain rel entries where s: "d = [] @ rel" "lookup root rel = Some (Dir entries)"
    "\<not> excluded rel" "fs = entry_files entries"
    using visits_sound [OF v(1)] by blast
  have "wf_node sep (Dir entries)"
    using lookup_wf [OF assms s(2)] by simp
  then have "(\<exists>t. map_of entries f = Some (File t)) \<and> endswith f ''.md'' \<and> f \<noteq> ''README.md''"
    using v(2) s(4) by (simp add: entry_files_iff)
  then show "retained root d f"
    using s by (auto simp: retained_def lookup_append)
qed

lemma visits_wf:
  assumes "wf_node sep root" "(d, fs) \<in> set (visits [] root)"
  shows "wf_names sep d \<and> wf_names sep fs \<and> distinct fs \<and> fs \<noteq> []"
proof -
  obtain rel entries where s: "d = [] @ rel" "lookup root rel = Some (Dir entries)"
    "fs = entry_files entries" "fs \<noteq> []"
    using visits_sound [OF assms(2)] by blast
  have w: "wf_names sep rel" "wf_node sep (Dir entries)"
    using lookup_wf [OF assms(1) s(2)] by simp_all
  show ?thesis
    using s w entry_files_wf [OF w(2)] entry_files_distinct [of entries] by simp
qed

lemma distinct_concat_map:
  assumes "distinct xs" "\<And>x. x \<in> set xs \<Longrightarrow> distinct (h x)"
    and "\<And>x y. x \<in> set xs \<Longrightarrow> y \<in> set xs \<Longrightarrow> x \<noteq> y \<Longrightarrow> set (h x) \<inter> set (h y) = {}"
  shows "distinct (concat (map h xs))"
  using assms
proof (induction xs)
  case Nil
  then show ?case by simp
next
  case (Cons x xs)
  have "distinct (concat (map h xs))"
    using Cons.prems by (intro Cons.IH) auto
  moreover have "\<And>y. y \<in> set xs \<Longrightarrow> set (h x) \<inter> set (h y) = {}"
    using Cons.prems(1) by (intro Cons.prems(3)) auto
  ultimately show ?case using Cons.prems(2) [of x] by auto
qed

lemma visits_below: "(dir, fs) \<in> set (visits d n) \<Longrightarrow> \<exists>rel. dir = d @ rel"
  using visits_sound by blast

lemma visits_distinct: "wf_node sep n \<Longrightarrow> distinct (map fst (visits d n))"
proof (induction d n rule: visits.induct)
  case (1 directory t)
  then show ?case by simp
next
  case (2 directory entries)
  let ?h = "\<lambda>name. map fst (case map_of entries name of None \<Rightarrow> []
                            | Some child \<Rightarrow> visits (directory @ [name]) child)"
  let ?subs = "entry_subdirectories entries"
  have sub: "\<And>name. name \<in> set ?subs \<Longrightarrow> distinct (?h name)"
  proof -
    fix name assume n: "name \<in> set ?subs"
    show "distinct (?h name)"
    proof (cases "map_of entries name")
      case None
      then show ?thesis by simp
    next
      case (Some child)
      have "(name, child) \<in> set entries" using Some by (rule map_of_SomeD)
      then have "wf_node sep child" using "2.prems" by auto
      moreover have "(entry_subdirectories entries, entry_files entries,
            entry_files entries \<noteq> [])
          = filterDirectory (map fst (filter (\<lambda>e. is_dir (snd e)) entries))
              (map fst (filter (\<lambda>e. \<not> is_dir (snd e)) entries))"
        by (simp add: entry_subdirectories_def entry_files_def filterDirectory_def Let_def)
      ultimately have "distinct (map fst (visits (directory @ [name]) child))"
        using n Some "2.IH" [OF refl refl refl _ refl, of "entry_subdirectories entries"
            "entry_files entries" "entry_files entries \<noteq> []" name child]
        by blast
      then show ?thesis using Some by simp
    qed
  qed
  have form: "\<And>name dir. dir \<in> set (?h name) \<Longrightarrow> \<exists>rel. dir = directory @ name # rel"
  proof -
    fix name dir assume "dir \<in> set (?h name)"
    then obtain child fs where "(dir, fs) \<in> set (visits (directory @ [name]) child)"
      by (cases "map_of entries name") auto
    then show "\<exists>rel. dir = directory @ name # rel"
      using visits_below by fastforce
  qed
  have disj: "\<And>x y. x \<in> set ?subs \<Longrightarrow> y \<in> set ?subs \<Longrightarrow> x \<noteq> y \<Longrightarrow>
      set (?h x) \<inter> set (?h y) = {}"
  proof -
    fix x y :: string assume "x \<noteq> y"
    show "set (?h x) \<inter> set (?h y) = {}"
    proof (rule ccontr)
      assume "set (?h x) \<inter> set (?h y) \<noteq> {}"
      then obtain dir where "dir \<in> set (?h x)" "dir \<in> set (?h y)" by blast
      then obtain rel rel' where "dir = directory @ x # rel" "dir = directory @ y # rel'"
        using form [of dir x] form [of dir y] by blast
      then show False using \<open>x \<noteq> y\<close> by simp
    qed
  qed
  have ds: "distinct ?subs"
    using "2.prems" by (simp add: entry_subdirectories_def distinct_map_filter)
  have "distinct (concat (map ?h ?subs))"
    using ds sub disj by (rule distinct_concat_map)
  moreover have "directory \<notin> set (concat (map ?h ?subs))"
  proof
    assume "directory \<in> set (concat (map ?h ?subs))"
    then obtain name where "directory \<in> set (?h name)" by auto
    then obtain rel where "directory = directory @ name # rel"
      using form [of directory name] by blast
    then show False by simp
  qed
  moreover have "map fst (visits directory (Dir entries))
      = (if entry_files entries \<noteq> [] then [directory] else []) @ concat (map ?h ?subs)"
    unfolding visits_Dir entry_subdirectories_def [symmetric]
    by (simp add: map_concat comp_def)
  ultimately show ?case by simp
qed

section \<open>The files linked\<close>

lemma link_files_append: "link_files (xs @ ys) = link_files xs @ link_files ys"
  by (induction xs rule: link_files.induct) auto

lemma heading_keys_append: "heading_keys (xs @ ys) = heading_keys xs @ heading_keys ys"
  by (induction xs rule: heading_keys.induct) auto

lemma link_files_new_headings: "link_files (new_headings P ps) = []"
  unfolding new_headings_def by (induction ps) (auto simp: heading_event_def)

lemma link_files_link_events: "link_files (map (link_event sep d) fs) = map (file_path sep d) fs"
  by (induction fs) (auto simp: link_event_def)

lemma heading_keys_new_headings:
  "heading_keys (new_headings P ps) = filter (\<lambda>k. k \<notin> P) (map heading_key ps)"
  unfolding new_headings_def by (induction ps) (auto simp: heading_event_def)

lemma heading_keys_link_events: "heading_keys (map (link_event sep d) fs) = []"
  by (induction fs) (auto simp: link_event_def)

lemma link_files_trace:
  "link_files (trace sep P vs)
   = concat (map (\<lambda>v. map (file_path sep (fst v)) (sort (snd v))) vs)"
  by (induction vs arbitrary: P)
     (auto simp: link_files_append link_files_new_headings link_files_link_events)

lemma count_list_distinct:
  "distinct xs \<Longrightarrow> count_list xs x = (if x \<in> set xs then 1 else 0)"
  by (induction xs) auto


lemma link_files_set:
  assumes "wf_node sep root"
  shows "set (link_files (trace sep P (visits [] root)))
     = {file_path sep d f | d f. retained root d f}"
proof -
  have "set (link_files (trace sep P (visits [] root)))
      = {file_path sep d f | d f. \<exists>fs. (d, fs) \<in> set (visits [] root) \<and> f \<in> set fs}"
    (is "?A = ?B")
  proof
    show "?A \<subseteq> ?B"
    proof
      fix x assume "x \<in> ?A"
      then obtain v f where "v \<in> set (visits [] root)" "f \<in> set (snd v)"
        "x = file_path sep (fst v) f"
        unfolding link_files_trace by auto
      then have "(fst v, snd v) \<in> set (visits [] root) \<and> f \<in> set (snd v)
          \<and> x = file_path sep (fst v) f" by simp
      then show "x \<in> ?B" by blast
    qed
  next
    show "?B \<subseteq> ?A"
    proof
      fix x assume "x \<in> ?B"
      then obtain d f fs where "(d, fs) \<in> set (visits [] root)" "f \<in> set fs"
        "x = file_path sep d f" by blast
      then show "x \<in> ?A"
        unfolding link_files_trace by force
    qed
  qed
  then show ?thesis unfolding visits_retained [OF assms] .
qed

lemma retained_wf:
  assumes "wf_node sep root" "retained root d f"
  shows "wf_names sep d \<and> wf_name sep f"
proof -
  obtain fs where "(d, fs) \<in> set (visits [] root)" "f \<in> set fs"
    using assms visits_retained by blast
  then show ?thesis
    using visits_wf [OF assms(1)] by (auto simp: wf_names_def)
qed

lemma example_tree_wf: "wf_node (CHR ''/'') example_tree"
  by (simp add: example_tree_def wf_name_def)

lemma example_retained: "retained example_tree [''docs''] ''x.md''"
  by (simp add: example_tree_def retained_def excluded_def endswith_def)

section \<open>The order of the links of a directory\<close>

lemma basename_file_path:
  assumes "wf_names sep d" "wf_name sep f"
  shows "basename sep (file_path sep d f) = f"
proof -
  have sf: "sep \<notin> set f" using assms(2) by (simp add: wf_name_def)
  show ?thesis
  proof (cases "d = []")
    case True
    then show ?thesis using sf by (simp add: file_path_def relpath_def basename_plain)
  next
    case False
    then have "file_path sep d f = str_join [sep] d @ sep # f"
      using file_path_wf [OF assms] by (simp add: str_join_append)
    then show ?thesis using sf by (simp add: basename_append)
  qed
qed

lemma str_split_file_path:
  assumes "wf_names sep d" "wf_name sep f"
  shows "str_split sep (file_path sep d f) = d @ [f]"
  unfolding file_path_wf [OF assms]
  using assms by (intro str_split_join) (auto simp: wf_names_def wf_name_def)

lemma group_of_directory:
  assumes "\<forall>v \<in> set vs. wf_names sep (fst v) \<and> wf_names sep (snd v)"
    and "distinct (map fst vs)"
  shows "map (basename sep)
           (filter (\<lambda>p. butlast (str_split sep p) = d)
              (concat (map (\<lambda>v. map (file_path sep (fst v)) (sort (snd v))) vs)))
         = (case map_of vs d of None \<Rightarrow> [] | Some fs \<Rightarrow> sort fs)"
  using assms
proof (induction vs)
  case Nil
  then show ?case by simp
next
  case (Cons v vs)
  obtain d' fs where v: "v = (d', fs)" by (cases v)
  have w: "wf_names sep d'" "\<forall>f \<in> set fs. wf_name sep f"
    using Cons.prems(1) v by (auto simp: wf_names_def)
  have sp: "\<And>f. f \<in> set fs \<Longrightarrow> butlast (str_split sep (file_path sep d' f)) = d'"
    using w by (simp add: str_split_file_path)
  have bn: "\<And>f. f \<in> set fs \<Longrightarrow> basename sep (file_path sep d' f) = f"
    using w by (simp add: basename_file_path)
  have ih: "map (basename sep)
           (filter (\<lambda>p. butlast (str_split sep p) = d)
              (concat (map (\<lambda>v. map (file_path sep (fst v)) (sort (snd v))) vs)))
         = (case map_of vs d of None \<Rightarrow> [] | Some fs \<Rightarrow> sort fs)"
    using Cons.prems by (intro Cons.IH) auto
  show ?case
  proof (cases "d' = d")
    case True
    have "map_of vs d = None"
      using Cons.prems(2) v True by (simp add: map_of_eq_None_iff)
    moreover have "filter (\<lambda>p. butlast (str_split sep p) = d) (map (file_path sep d') (sort fs))
        = map (file_path sep d') (sort fs)"
      using sp True by (intro filter_True) auto
    moreover have "map (basename sep) (map (file_path sep d') (sort fs)) = sort fs"
      unfolding map_map using bn by (intro map_idI) simp
    ultimately show ?thesis using ih v True by simp
  next
    case False
    have "filter (\<lambda>p. butlast (str_split sep p) = d) (map (file_path sep d') (sort fs)) = []"
      using sp False by (intro filter_False) auto
    then show ?thesis using ih v False by simp
  qed
qed

section \<open>The format of a link\<close>

lemma Link_in_new_headings: "Link file t \<notin> set (new_headings P ps)"
  by (auto simp: new_headings_def heading_event_def)

lemma Link_in_trace:
  "Link file t \<in> set (trace sep P vs) \<longleftrightarrow>
     (\<exists>v \<in> set vs. \<exists>f \<in> set (snd v). Link file t = link_event sep (fst v) f)"
  by (induction vs arbitrary: P) (auto simp: Link_in_new_headings)

lemma endswith_append: "endswith f ending \<longleftrightarrow> (\<exists>stem. f = stem @ ending)"
proof
  assume "endswith f ending"
  then have "take (length ending) (rev f) = rev ending" by (simp add: endswith_def)
  then have "rev f = rev ending @ drop (length ending) (rev f)"
    by (metis append_take_drop_id)
  then have "f = rev (drop (length ending) (rev f)) @ ending"
    by (metis rev_append rev_rev_ident)
  then show "\<exists>stem. f = stem @ ending" by blast
next
  assume "\<exists>stem. f = stem @ ending"
  then show "endswith f ending" by (auto simp: endswith_def)
qed

lemma splitext_md:
  assumes "sep \<notin> set (stem @ ''.md'')"
  shows "fst (splitext sep (stem @ ''.md'')) = (if has_non_dot stem then stem else stem @ ''.md'')"
proof (cases "has_non_dot stem")
  case True
  show ?thesis
    using splitext_last_dot [of sep stem "''md''"] assms True by simp
next
  case False
  show ?thesis
    using splitext_all_dots [of sep stem "''md''"] assms False by simp
qed

section \<open>The headings\<close>

lemma example_visits:
  "visits [] example_tree
   = [([], [''b.md'', ''a.md'']), ([''docs''], [''x.md'']), ([''docs'', ''sub''], [''y.md'']),
      ([''docs'', ''img''], [''z.md''])]"
  by code_simp

lemma example_trace:
  "trace (CHR ''/'') {} [([], [''b.md'', ''a.md'']), ([''docs''], [''x.md'']), ([''docs'', ''sub''], [''y.md'']),
      ([''docs'', ''img''], [''z.md''])]
   = [Link ''a.md'' (''- [a](a.md)'' @ [CHR 10]),
      Link ''b.md'' (''- [b](b.md)'' @ [CHR 10]),
      Heading ''docs'' ([CHR 10] @ ''## docs'' @ [CHR 10]),
      Link ''docs/x.md'' (''- [x](docs/x.md)'' @ [CHR 10]),
      Heading ''docs/sub'' ([CHR 10] @ ''### sub'' @ [CHR 10]),
      Link ''docs/sub/y.md'' (''- [y](docs/sub/y.md)'' @ [CHR 10]),
      Heading ''docs/img'' ([CHR 10] @ ''### img'' @ [CHR 10]),
      Link ''docs/img/z.md'' (''- [z](docs/img/z.md)'' @ [CHR 10])]"
  by code_simp

lemma example_emitted:
  "emitted (run_generator (CHR ''/'') ''/repo'' example_tree)
   = [Link ''a.md'' (''- [a](a.md)'' @ [CHR 10]),
      Link ''b.md'' (''- [b](b.md)'' @ [CHR 10]),
      Heading ''docs'' ([CHR 10] @ ''## docs'' @ [CHR 10]),
      Link ''docs/x.md'' (''- [x](docs/x.md)'' @ [CHR 10]),
      Heading ''docs/sub'' ([CHR 10] @ ''### sub'' @ [CHR 10]),
      Link ''docs/sub/y.md'' (''- [y](docs/sub/y.md)'' @ [CHR 10]),
      Heading ''docs/img'' ([CHR 10] @ ''### img'' @ [CHR 10]),
      Link ''docs/img/z.md'' (''- [z](docs/img/z.md)'' @ [CHR 10])]"
  unfolding run_generator_emitted example_visits by (rule example_trace)

lemma prefixes_from_set:
  "set (prefixes_from acc parts) = {acc @ q | q. q \<noteq> [] \<and> prefix q parts}"
proof (induction acc parts rule: prefixes_from.induct)
  case (1 accumulated)
  then show ?case by auto
next
  case (2 accumulated part parts)
  show ?case (is "?A = ?B")
  proof
    show "?A \<subseteq> ?B"
    proof
      fix x assume "x \<in> ?A"
      then consider "x = accumulated @ [part]"
        | q where "q \<noteq> []" "prefix q parts" "x = (accumulated @ [part]) @ q"
        using 2 by auto
      then show "x \<in> ?B"
      proof cases
        case 1
        then have "x = accumulated @ [part] \<and> [part] \<noteq> [] \<and> prefix [part] (part # parts)"
          by simp
        then show ?thesis by blast
      next
        case 2
        then have "x = accumulated @ (part # q) \<and> part # q \<noteq> [] \<and> prefix (part # q) (part # parts)"
          by simp
        then show ?thesis by blast
      qed
    qed
  next
    show "?B \<subseteq> ?A"
    proof
      fix x assume "x \<in> ?B"
      then obtain q where q: "x = accumulated @ q" "q \<noteq> []" "prefix q (part # parts)" by blast
      then obtain q' where q': "q = part # q'" "prefix q' parts"
        by (cases q) auto
      show "x \<in> ?A"
      proof (cases "q' = []")
        case True
        then show ?thesis using q q' by simp
      next
        case False
        then have "x \<in> set (prefixes_from (accumulated @ [part]) parts)"
          unfolding 2 using q q' by auto
        then show ?thesis by simp
      qed
    qed
  qed
qed

lemma prefixes_set: "set (prefixes_from [] d) = {p. p \<noteq> [] \<and> prefix p d}"
  unfolding prefixes_from_set by simp

lemma prefixes_from_keys_distinct: "distinct (map heading_key (prefixes_from acc parts))"
proof (induction acc parts rule: prefixes_from.induct)
  case (1 accumulated)
  then show ?case by simp
next
  case (2 accumulated part parts)
  have "heading_key (accumulated @ [part])
      \<notin> heading_key ` set (prefixes_from (accumulated @ [part]) parts)"
    using heading_key_longer [of _ accumulated part parts] by force
  then show ?case using 2 by simp
qed

lemma heading_keys_trace_set:
  "set (heading_keys (trace sep P vs))
   = (\<Union>v \<in> set vs. heading_key ` set (prefixes_from [] (dir_parts sep (fst v)))) - P"
  by (induction vs arbitrary: P)
     (auto simp: heading_keys_append heading_keys_new_headings heading_keys_link_events)

lemma heading_keys_trace_distinct: "distinct (heading_keys (trace sep P vs))"
proof (induction vs arbitrary: P)
  case Nil
  then show ?case by simp
next
  case (Cons v vs)
  let ?ps = "prefixes_from [] (dir_parts sep (fst v))"
  let ?P' = "P \<union> heading_key ` set ?ps"
  have "distinct (filter (\<lambda>k. k \<notin> P) (map heading_key ?ps))"
    using prefixes_from_keys_distinct by (rule distinct_filter)
  moreover have "distinct (heading_keys (trace sep ?P' vs))" by (rule Cons.IH)
  moreover have "set (heading_keys (trace sep ?P' vs)) \<inter> ?P' = {}"
    unfolding heading_keys_trace_set by blast
  ultimately show ?case
    by (auto simp: heading_keys_append heading_keys_new_headings heading_keys_link_events)
qed

lemma Heading_in_trace:
  "Heading k t \<in> set (trace sep P vs) \<Longrightarrow>
   \<exists>v \<in> set vs. \<exists>p \<in> set (prefixes_from [] (dir_parts sep (fst v))).
      k = heading_key p \<and> t = heading_text p"
  by (induction vs arbitrary: P)
     (auto simp: new_headings_def heading_event_def link_event_def)



lemma wf_names_prefix: "wf_names sep d \<Longrightarrow> prefix p d \<Longrightarrow> wf_names sep p"
  by (auto simp: wf_names_def prefix_def)



lemma key_in_trace:
  assumes "\<forall>v \<in> set vs. wf_names sep (fst v)" "wf_names sep p" "p \<noteq> []"
  shows "heading_key p \<in> set (heading_keys (trace sep {} vs)) \<longleftrightarrow> (\<exists>v \<in> set vs. prefix p (fst v))"
proof
  assume "heading_key p \<in> set (heading_keys (trace sep {} vs))"
  then obtain v q where v: "v \<in> set vs" "q \<in> set (prefixes_from [] (dir_parts sep (fst v)))"
    "heading_key q = heading_key p"
    unfolding heading_keys_trace_set by auto
  have wv: "wf_names sep (fst v)" using assms(1) v(1) by simp
  then have q: "q \<noteq> []" "prefix q (fst v)"
    using v(2) by (simp_all add: dir_parts_wf prefixes_set)
  have "wf_names sep q" using wv q(2) by (rule wf_names_prefix)
  then have "q = p" using assms(2,3) q(1) v(3) heading_key_inj by blast
  then show "\<exists>v \<in> set vs. prefix p (fst v)" using v(1) q(2) by blast
next
  assume "\<exists>v \<in> set vs. prefix p (fst v)"
  then obtain v where v: "v \<in> set vs" "prefix p (fst v)" by blast
  have "wf_names sep (fst v)" using assms(1) v(1) by simp
  then have "p \<in> set (prefixes_from [] (dir_parts sep (fst v)))"
    using v(2) assms(3) by (simp add: dir_parts_wf prefixes_set)
  then show "heading_key p \<in> set (heading_keys (trace sep {} vs))"
    unfolding heading_keys_trace_set using v(1) by auto
qed

lemma ex_take_nth:
  assumes "k \<le> length vs"
  shows "(\<exists>v \<in> set (take k vs). Q v) \<longleftrightarrow> (\<exists>j<k. Q (vs ! j))"
proof
  assume "\<exists>v \<in> set (take k vs). Q v"
  then obtain v where "v \<in> set (take k vs)" "Q v" by blast
  then obtain j where "j < length (take k vs)" "take k vs ! j = v"
    by (auto simp: in_set_conv_nth)
  then have "j < k \<and> Q (vs ! j)" using \<open>Q v\<close> by simp
  then show "\<exists>j<k. Q (vs ! j)" by blast
next
  assume "\<exists>j<k. Q (vs ! j)"
  then obtain j where j: "j < k" "Q (vs ! j)" by blast
  then have "j < length (take k vs)" "take k vs ! j = vs ! j" using assms by simp_all
  then have "vs ! j \<in> set (take k vs)" by (metis nth_mem)
  then show "\<exists>v \<in> set (take k vs). Q v" using j(2) by blast
qed

lemma visits_nonempty_retained:
  assumes "wf_node sep root"
  shows "(\<exists>fs. (d, fs) \<in> set (visits [] root)) \<longleftrightarrow> (\<exists>f. retained root d f)"
proof
  assume "\<exists>fs. (d, fs) \<in> set (visits [] root)"
  then obtain fs where v: "(d, fs) \<in> set (visits [] root)" by blast
  then have "fs \<noteq> []" using visits_wf [OF assms] by blast
  then obtain f where "f \<in> set fs" by (cases fs) auto
  then show "\<exists>f. retained root d f"
    unfolding visits_retained [OF assms] using v by blast
next
  assume "\<exists>f. retained root d f"
  then show "\<exists>fs. (d, fs) \<in> set (visits [] root)"
    unfolding visits_retained [OF assms] by blast
qed

section \<open>The order of the events\<close>




lemma new_headings_Cons:
  "new_headings S (x # xs)
   = (if heading_key x \<notin> S then heading_event x # new_headings S xs else new_headings S xs)"
  by (simp add: new_headings_def)










section \<open>A second run\<close>

declare walk.simps(2) [simp del]

lemma write_entry_map_of: "map_of (write_entry n t es) = (map_of es)(n \<mapsto> File t)"
  by (induction es) (auto simp: fun_eq_iff)

lemma write_entry_twice: "write_entry n t (write_entry n t es) = write_entry n t es"
  by (induction es) auto

lemma write_entry_subdirectories:
  assumes "\<forall>sub. map_of es n \<noteq> Some (Dir sub)"
  shows "map fst (filter (\<lambda>e. is_dir (snd e)) (write_entry n t es))
       = map fst (filter (\<lambda>e. is_dir (snd e)) es)"
  using assms
proof (induction es)
  case Nil
  then show ?case by simp
next
  case (Cons e es)
  show ?case
  proof (cases "fst e = n")
    case True
    then have "map_of (e # es) n = Some (snd e)" by (cases e) simp
    then have "\<not> is_dir (snd e)" using Cons.prems by (cases "snd e") auto
    then show ?thesis using True by simp
  next
    case False
    then have "\<forall>sub. map_of es n \<noteq> Some (Dir sub)"
      using Cons.prems by (cases e) auto
    then show ?thesis using False Cons.IH by simp
  qed
qed

lemma write_entry_files:
  "filter (\<lambda>f. f \<noteq> n) (map fst (filter (\<lambda>e. \<not> is_dir (snd e)) (write_entry n t es)))
   = filter (\<lambda>f. f \<noteq> n) (map fst (filter (\<lambda>e. \<not> is_dir (snd e)) es))"
  by (induction es) auto

lemma entry_files_filter:
  "entry_files es
   = filter (\<lambda>f. endswith f ''.md'')
       (filter (\<lambda>f. f \<noteq> ''README.md'') (map fst (filter (\<lambda>e. \<not> is_dir (snd e)) es)))"
  by (simp add: entry_files_def filterDirectory_def Let_def conj_commute)

lemma write_entry_entry_files:
  "entry_files (write_entry ''README.md'' t es) = entry_files es"
  unfolding entry_files_filter write_entry_files ..

lemma README_not_in_entry_files: "''README.md'' \<notin> set (entry_files es)"
  by (simp add: entry_files_filter)

lemma write_entry_entry_subdirectories:
  "\<forall>sub. map_of es n \<noteq> Some (Dir sub) \<Longrightarrow>
   entry_subdirectories (write_entry n t es) = entry_subdirectories es"
  by (simp add: entry_subdirectories_def write_entry_subdirectories)

lemma visits_File: "visits d (File t) = []"
  by simp

lemma write_entry_visits:
  assumes "\<forall>sub. map_of es ''README.md'' \<noteq> Some (Dir sub)"
  shows "visits d (Dir (write_entry ''README.md'' t es)) = visits d (Dir es)"
proof -
  have "\<And>name. (case map_of (write_entry ''README.md'' t es) name of None \<Rightarrow> []
                   | Some child \<Rightarrow> visits (d @ [name]) child)
      = (case map_of es name of None \<Rightarrow> [] | Some child \<Rightarrow> visits (d @ [name]) child)"
  proof -
    fix name
    show "(case map_of (write_entry ''README.md'' t es) name of None \<Rightarrow> []
                   | Some child \<Rightarrow> visits (d @ [name]) child)
      = (case map_of es name of None \<Rightarrow> [] | Some child \<Rightarrow> visits (d @ [name]) child)"
    proof (cases "name = ''README.md''")
      case False
      then show ?thesis by (simp add: write_entry_map_of)
    next
      case True
      show ?thesis
      proof (cases "map_of es ''README.md''")
        case None
        then show ?thesis using True by (simp add: write_entry_map_of)
      next
        case (Some child)
        then obtain old where "child = File old" using assms by (cases child) auto
        then show ?thesis using True Some by (simp add: write_entry_map_of)
      qed
    qed
  qed
  then show ?thesis
    unfolding visits_Dir entry_subdirectories_def [symmetric]
    by (simp add: write_entry_entry_files write_entry_entry_subdirectories [OF assms])
qed

lemma write_entry_run:
  assumes "\<forall>sub. map_of es ''README.md'' \<noteq> Some (Dir sub)"
  shows "run_generator sep r (Dir (write_entry ''README.md'' t es)) = run_generator sep r (Dir es)"
  by (simp add: run_generator_def walk_visits write_entry_visits [OF assms])

lemma main_Dir:
  assumes "root_node w = Some (Dir es)" "\<forall>sub. map_of es ''README.md'' \<noteq> Some (Dir sub)"
  shows "main sep r w
     = (Completed,
        w\<lparr>root_node := Some (Dir (write_entry ''README.md''
              (contents (run_generator sep r (Dir es)) @ footer) es))\<rparr>)"
proof -
  have g: "main sep r w = writeToFile (run_generator sep r (Dir es)) w"
    using assms(1) by (simp add: main_def init_def generate_def Let_def run_generator_def)
  show ?thesis
    unfolding g writeToFile_def using assms
    by (auto split: option.splits node.splits)
qed

lemma main_Completed:
  assumes "main sep r w = (Completed, w1)"
  shows "\<exists>es. root_node w = Some (Dir es) \<and> (\<forall>sub. map_of es ''README.md'' \<noteq> Some (Dir sub))"
proof (cases "root_node w")
  case None
  then show ?thesis using assms by (simp add: main_def init_def Let_def)
next
  case (Some n)
  show ?thesis
  proof (cases n)
    case (File t)
    then show ?thesis
      using assms Some
      by (simp add: main_def init_def generate_def writeToFile_def Let_def)
  next
    case (Dir es)
    have "\<forall>sub. map_of es ''README.md'' \<noteq> Some (Dir sub)"
    proof (intro allI notI)
      fix sub assume "map_of es ''README.md'' = Some (Dir sub)"
      then have "main sep r w = (IsADirectoryError, w)"
        using Some Dir by (simp add: main_def init_def generate_def writeToFile_def Let_def)
      then show False using assms by simp
    qed
    then show ?thesis using Some Dir by simp
  qed
qed

text \<open>
  C8. If a run of the script completes, a second run on the world it leaves completes
  too and changes nothing: it writes the same text to \<open>README.md\<close>. The root directory
  then lists a file \<open>README.md\<close>, which holds the index of the very directory it is listed
  in, and the filter does not retain it.
\<close>

theorem C8_second_run_identical:
  assumes "main sep r w = (Completed, w1)"
  shows "main sep r w1 = (Completed, w1)
       \<and> (\<exists>es1. root_node w1 = Some (Dir es1)
             \<and> map_of es1 ''README.md''
                 = Some (File (contents (run_generator sep r (Dir es1)) @ footer))
             \<and> ''README.md'' \<notin> set (entry_files es1))"
proof -
  obtain es where es: "root_node w = Some (Dir es)"
    "\<forall>sub. map_of es ''README.md'' \<noteq> Some (Dir sub)"
    using main_Completed [OF assms] by blast
  let ?t = "contents (run_generator sep r (Dir es)) @ footer"
  let ?es1 = "write_entry ''README.md'' ?t es"
  have w1: "w1 = w\<lparr>root_node := Some (Dir ?es1)\<rparr>"
    using assms main_Dir [OF es, of sep r] by simp
  have r1: "root_node w1 = Some (Dir ?es1)" using w1 by simp
  have m1: "map_of ?es1 ''README.md'' = Some (File ?t)"
    by (simp add: write_entry_map_of)
  then have n1: "\<forall>sub. map_of ?es1 ''README.md'' \<noteq> Some (Dir sub)" by simp
  have same: "run_generator sep r (Dir ?es1) = run_generator sep r (Dir es)"
    using es(2) by (rule write_entry_run)
  have "main sep r w1 = (Completed, w1\<lparr>root_node := Some (Dir (write_entry ''README.md''
              (contents (run_generator sep r (Dir ?es1)) @ footer) ?es1))\<rparr>)"
    using r1 n1 by (rule main_Dir)
  also have "\<dots> = (Completed, w1)"
    unfolding same write_entry_twice using w1 by simp
  finally have 1: "main sep r w1 = (Completed, w1)" .
  have "map_of ?es1 ''README.md''
      = Some (File (contents (run_generator sep r (Dir ?es1)) @ footer))"
    unfolding same by (rule m1)
  then show ?thesis using 1 r1 README_not_in_entry_files by blast
qed

theorem C8_second_run_identical_witness:
  "main (CHR ''/'') ''/repo'' \<lparr>root_node = Some example_tree, stdout = [], stderr = []\<rparr>
     = (Completed,
        snd (main (CHR ''/'') ''/repo'' \<lparr>root_node = Some example_tree, stdout = [], stderr = []\<rparr>))
   \<and> main (CHR ''/'') ''/repo''
        (snd (main (CHR ''/'') ''/repo'' \<lparr>root_node = Some example_tree, stdout = [], stderr = []\<rparr>))
     = (Completed,
        snd (main (CHR ''/'') ''/repo'' \<lparr>root_node = Some example_tree, stdout = [], stderr = []\<rparr>))"
proof -
  let ?w = "\<lparr>root_node = Some example_tree, stdout = [], stderr = []\<rparr>"
  obtain es where es: "example_tree = Dir es" "map_of es ''README.md'' = Some (File ''old'')"
    by (simp add: example_tree_def)
  have "root_node ?w = Some (Dir es)" using es(1) by simp
  moreover have "\<forall>sub. map_of es ''README.md'' \<noteq> Some (Dir sub)" using es(2) by simp
  ultimately have "fst (main (CHR ''/'') ''/repo'' ?w) = Completed"
    using main_Dir [of ?w es "CHR ''/''" "''/repo''"] by simp
  then have m: "main (CHR ''/'') ''/repo'' ?w = (Completed, snd (main (CHR ''/'') ''/repo'' ?w))"
    by (metis prod.collapse)
  show ?thesis
    using C8_second_run_identical [OF m] m by blast
qed

section \<open>The links in the text of the index\<close>

lemma has_non_dot_iff: "has_non_dot s \<longleftrightarrow> \<not> set s \<subseteq> {CHR ''.''}"
  by (induction s) auto

lemma link_title_md:
  "link_title (stem @ ''.md'') = (if set stem \<subseteq> {CHR ''.''} then stem @ ''.md'' else stem)"
  by (simp add: link_title_def)

lemma splitext_link_title:
  assumes "wf_name sep f" "endswith f ''.md''"
  shows "fst (splitext sep f) = link_title f"
proof -
  obtain stem where st: "f = stem @ ''.md''"
    using assms(2) by (auto simp: endswith_append)
  have "sep \<notin> set (stem @ ''.md'')" using assms(1) st by (simp add: wf_name_def)
  then have "fst (splitext sep (stem @ ''.md''))
      = (if has_non_dot stem then stem else stem @ ''.md'')"
    by (rule splitext_md)
  then show ?thesis unfolding st link_title_md has_non_dot_iff by simp
qed

lemma link_event_text:
  assumes "wf_names sep d" "wf_name sep f" "endswith f ''.md''"
  shows "event_text (link_event sep d f) = link_line d f @ [CHR 10]"
  using generateLink_wf [OF assms(1,2)] splitext_link_title [OF assms(2,3)]
  by (simp add: link_event_def link_line_def)

lemma entry_files_endswith: "f \<in> set (entry_files es) \<Longrightarrow> endswith f ''.md''"
  by (simp add: entry_files_def filterDirectory_def Let_def)

lemma visits_endswith:
  assumes "(d, fs) \<in> set (visits [] root)" "f \<in> set fs"
  shows "endswith f ''.md''"
proof -
  obtain entries where "fs = entry_files entries"
    using visits_sound [OF assms(1)] by blast
  then show ?thesis using assms(2) entry_files_endswith by blast
qed

lemma trace_split_visit:
  "(d, fs) \<in> set vs \<Longrightarrow>
   \<exists>A B. trace sep P vs = A @ map (link_event sep d) (sort fs) @ B"
proof (induction vs arbitrary: P)
  case Nil
  then show ?case by simp
next
  case (Cons v vs)
  show ?case
  proof (cases "v = (d, fs)")
    case True
    have "trace sep P (v # vs)
        = new_headings P (prefixes_from [] (dir_parts sep d))
          @ map (link_event sep d) (sort fs)
          @ trace sep (P \<union> heading_key ` set (prefixes_from [] (dir_parts sep d))) vs"
      using True by simp
    then show ?thesis by blast
  next
    case False
    then have "(d, fs) \<in> set vs" using Cons.prems by simp
    then obtain A B where
      "trace sep (P \<union> heading_key ` set (prefixes_from [] (dir_parts sep (fst v)))) vs
        = A @ map (link_event sep d) (sort fs) @ B"
      using Cons.IH by blast
    then have "trace sep P (v # vs)
        = ((new_headings P (prefixes_from [] (dir_parts sep (fst v)))
            @ map (link_event sep (fst v)) (sort (snd v))) @ A)
          @ map (link_event sep d) (sort fs) @ B"
      by simp
    then show ?thesis by blast
  qed
qed

lemma event_text_newline:
  "e \<in> set (trace sep P vs) \<Longrightarrow> event_text e \<noteq> [] \<and> last (event_text e) = CHR 10"
proof (induction vs arbitrary: P)
  case Nil
  then show ?case by simp
next
  case (Cons v vs)
  then show ?case
    by (auto simp: new_headings_def heading_event_def heading_text_def link_event_def)
qed

lemma last_concat_texts:
  assumes "\<forall>e \<in> set es. event_text e \<noteq> [] \<and> last (event_text e) = CHR 10"
  shows "last (title @ [CHR 10] @ concat (map event_text es)) = CHR 10"
  using assms
proof (induction es rule: rev_induct)
  case Nil
  then show ?case by simp
next
  case (snoc e es)
  then have "event_text e \<noteq> []" "last (event_text e) = CHR 10" by simp_all
  then show ?case by simp
qed

lemma contents_segment:
  assumes "emitted (run_generator sep r root) = A @ X @ B"
  shows "\<exists>pre post. contents (run_generator sep r root)
            = pre @ concat (map event_text X) @ post
          \<and> pre \<noteq> [] \<and> last pre = CHR 10"
proof -
  let ?pre = "(''# '' @ basename sep (normpath sep r)) @ [CHR 10] @ concat (map event_text A)"
  have "\<forall>e \<in> set A. event_text e \<noteq> [] \<and> last (event_text e) = CHR 10"
    using assms event_text_newline [of _ sep "{}" "visits [] root"]
    unfolding run_generator_emitted by auto
  then have "last ?pre = CHR 10" by (rule last_concat_texts)
  moreover have "contents (run_generator sep r root)
      = ?pre @ concat (map event_text X) @ concat (map event_text B)"
    using run_generator_contents [of sep r root] assms by simp
  moreover have "?pre \<noteq> []" by simp
  ultimately show ?thesis by blast
qed

lemma example_title: "basename (CHR ''/'') (normpath (CHR ''/'') ''/repo'') = ''repo''"
  by code_simp

lemma example_contents:
  "contents (run_generator (CHR ''/'') ''/repo'' example_tree)
   = ''# repo'' @ [CHR 10]
     @ ''- [a](a.md)'' @ [CHR 10]
     @ ''- [b](b.md)'' @ [CHR 10]
     @ [CHR 10] @ ''## docs'' @ [CHR 10]
     @ ''- [x](docs/x.md)'' @ [CHR 10]
     @ [CHR 10] @ ''### sub'' @ [CHR 10]
     @ ''- [y](docs/sub/y.md)'' @ [CHR 10]
     @ [CHR 10] @ ''### img'' @ [CHR 10]
     @ ''- [z](docs/img/z.md)'' @ [CHR 10]"
  unfolding run_generator_contents example_emitted example_title by simp

lemma links_segment:
  assumes "wf_node sep root" "(d, fs) \<in> set (visits [] root)" "set xs \<subseteq> set fs"
  shows "concat (map event_text (map (link_event sep d) xs))
       = concat (map (\<lambda>f. link_line d f @ [CHR 10]) xs)"
  using assms(3)
proof (induction xs)
  case Nil
  then show ?case by simp
next
  case (Cons f xs)
  have w: "wf_names sep d" "wf_names sep fs" using visits_wf [OF assms(1,2)] by simp_all
  have "f \<in> set fs" using Cons.prems by simp
  then have "event_text (link_event sep d f) = link_line d f @ [CHR 10]"
    using w visits_endswith [OF assms(2)] by (intro link_event_text) (auto simp: wf_names_def)
  then show ?case using Cons by simp
qed

text \<open>
  C6. For every directory, the link lines of its retained files stand together in the
  index, each on a line of its own, in ascending order of the file names: the index is
  some text that ends a line, then the lines of the links of the sorted names, then the
  rest.
\<close>

theorem C6_links_sorted_by_name:
  assumes "wf_node sep root"
  shows "\<exists>pre fs post.
           contents (run_generator sep r root)
             = pre @ concat (map (\<lambda>f. link_line d f @ [CHR 10]) fs) @ post
         \<and> pre \<noteq> [] \<and> last pre = CHR 10
         \<and> sorted fs \<and> distinct fs \<and> set fs = {f. retained root d f}"
proof (cases "\<exists>fs. (d, fs) \<in> set (visits [] root)")
  case True
  then obtain fs where v: "(d, fs) \<in> set (visits [] root)" by blast
  have u: "\<And>fs'. (d, fs') \<in> set (visits [] root) \<Longrightarrow> fs' = fs"
    using visits_distinct [OF assms, of "[]"] v
    by (metis map_of_is_SomeI option.inject)
  have s: "{f. retained root d f} = set fs"
    unfolding visits_retained [OF assms] using v u by blast
  have df: "distinct fs" using visits_wf [OF assms v] by simp
  obtain A B where "emitted (run_generator sep r root)
      = A @ map (link_event sep d) (sort fs) @ B"
    unfolding run_generator_emitted using trace_split_visit [OF v] by blast
  then obtain pre post where c: "contents (run_generator sep r root)
      = pre @ concat (map event_text (map (link_event sep d) (sort fs))) @ post"
    "pre \<noteq> []" "last pre = CHR 10"
    using contents_segment by blast
  have "concat (map event_text (map (link_event sep d) (sort fs)))
      = concat (map (\<lambda>f. link_line d f @ [CHR 10]) (sort fs))"
    using links_segment [OF assms v, of "sort fs"] by simp
  then have "contents (run_generator sep r root)
      = pre @ concat (map (\<lambda>f. link_line d f @ [CHR 10]) (sort fs)) @ post"
    using c(1) by simp
  moreover have "sorted (sort fs)" "distinct (sort fs)" "set (sort fs) = {f. retained root d f}"
    using df s by simp_all
  ultimately show ?thesis using c(2,3) by blast
next
  case False
  then have s: "{f. retained root d f} = {}"
    unfolding visits_retained [OF assms] by blast
  obtain pre post where "contents (run_generator sep r root)
      = pre @ concat (map event_text []) @ post" "pre \<noteq> []" "last pre = CHR 10"
    using contents_segment [of sep r root "emitted (run_generator sep r root)" "[]" "[]"]
    by auto
  then have "contents (run_generator sep r root)
      = pre @ concat (map (\<lambda>f. link_line d f @ [CHR 10]) []) @ post
      \<and> pre \<noteq> [] \<and> last pre = CHR 10 \<and> sorted ([] :: string list) \<and> distinct ([] :: string list)
      \<and> set ([] :: string list) = {f. retained root d f}"
    using s by simp
  then show ?thesis by blast
qed

theorem C6_links_sorted_by_name_witness:
  "wf_node (CHR ''/'') example_tree
   \<and> (\<exists>pre fs post.
         contents (run_generator (CHR ''/'') ''/repo'' example_tree)
           = pre @ concat (map (\<lambda>f. link_line [] f @ [CHR 10]) fs) @ post
       \<and> pre \<noteq> [] \<and> last pre = CHR 10
       \<and> sorted fs \<and> distinct fs \<and> set fs = {f. retained example_tree [] f})
   \<and> contents (run_generator (CHR ''/'') ''/repo'' example_tree)
     = ''# repo'' @ [CHR 10]
       @ ''- [a](a.md)'' @ [CHR 10]
       @ ''- [b](b.md)'' @ [CHR 10]
       @ [CHR 10] @ ''## docs'' @ [CHR 10]
       @ ''- [x](docs/x.md)'' @ [CHR 10]
       @ [CHR 10] @ ''### sub'' @ [CHR 10]
       @ ''- [y](docs/sub/y.md)'' @ [CHR 10]
       @ [CHR 10] @ ''### img'' @ [CHR 10]
       @ ''- [z](docs/img/z.md)'' @ [CHR 10]"
  using C6_links_sorted_by_name [OF example_tree_wf, of "''/repo''" "[]"]
    example_tree_wf example_contents
  by blast

lemma dot_tree_contents:
  "contents (run_generator (CHR ''/'') ''/repo'' dot_tree)
   = ''# repo'' @ [CHR 10] @ [CHR 10] @ ''## docs'' @ [CHR 10]
     @ ''- [.md](docs/.md)'' @ [CHR 10]"
  by code_simp

text \<open>
  C7, as stated, fails: the file \<open>.md\<close> of a directory \<open>docs\<close> is retained, but no line of
  the index is \<open>- [](docs/.md)\<close>, the link with the extension stripped from the name; the
  index links the file as \<open>- [.md](docs/.md)\<close>.
\<close>

theorem C7_dot_md_counterexample:
  "wf_node (CHR ''/'') dot_tree \<and> retained dot_tree [''docs''] ''.md''
   \<and> ''- [](docs/.md)''
       \<notin> set (str_split (CHR 10) (contents (run_generator (CHR ''/'') ''/repo'' dot_tree)))
   \<and> contents (run_generator (CHR ''/'') ''/repo'' dot_tree)
       = ''# repo'' @ [CHR 10] @ [CHR 10] @ ''## docs'' @ [CHR 10]
         @ ''- [.md](docs/.md)'' @ [CHR 10]"
proof -
  have w: "wf_node (CHR ''/'') dot_tree" by (simp add: dot_tree_def wf_name_def)
  have r: "retained dot_tree [''docs''] ''.md''"
    by (simp add: dot_tree_def retained_def excluded_def endswith_def)
  have n: "''- [](docs/.md)''
       \<notin> set (str_split (CHR 10) (contents (run_generator (CHR ''/'') ''/repo'' dot_tree)))"
    unfolding dot_tree_contents by simp
  show ?thesis using w r n dot_tree_contents by blast
qed

text \<open>
  C7, amended. For every retained file, the index holds the line \<open>- [text](target)\<close>, a
  line of its own: the text is the base name without its final \<open>.md\<close>, or the whole base
  name when only dots precede that \<open>.md\<close> (what \<open>os.path.splitext\<close> leaves of the base
  name), and the target is the names from the root to the file joined by forward
  slashes, which is the path with each separator replaced by one.
\<close>

theorem C7_link_format:
  assumes "wf_node sep root" and "retained root d f"
  shows "(\<exists>pre post. contents (run_generator sep r root) = pre @ link_line d f @ [CHR 10] @ post
            \<and> pre \<noteq> [] \<and> last pre = CHR 10)
       \<and> link_line d f
           = ''- ['' @ link_title f @ '']('' @ str_replace sep (CHR ''/'') (str_join [sep] (d @ [f]))
             @ '')''
       \<and> (\<exists>stem. f = stem @ ''.md''
             \<and> link_title f = (if set stem \<subseteq> {CHR ''.''} then f else stem))
       \<and> basename sep (str_join [sep] (d @ [f])) = f
       \<and> link_title f = fst (splitext sep (basename sep (str_join [sep] (d @ [f]))))"
proof -
  have w: "wf_names sep d" "wf_name sep f"
    using retained_wf [OF assms] by simp_all
  have e: "endswith f ''.md''" using assms(2) by (simp add: retained_def)
  have b: "basename sep (str_join [sep] (d @ [f])) = f"
    using basename_file_path [OF w] file_path_wf [OF w] by simp
  have rp: "str_replace sep (CHR ''/'') (str_join [sep] (d @ [f])) = str_join ''/'' (d @ [f])"
    using w by (intro str_replace_join) (auto simp: wf_names_def wf_name_def)
  obtain stem where st: "f = stem @ ''.md''" using e by (auto simp: endswith_append)
  have t: "link_title f = (if set stem \<subseteq> {CHR ''.''} then f else stem)"
    unfolding st by (rule link_title_md)
  obtain fs where v: "(d, fs) \<in> set (visits [] root)" "f \<in> set fs"
    using assms visits_retained by blast
  have "f \<in> set (sort fs)" using v(2) by simp
  then obtain xs ys where "sort fs = xs @ f # ys" by (meson split_list)
  moreover obtain A B where "emitted (run_generator sep r root)
      = A @ map (link_event sep d) (sort fs) @ B"
    unfolding run_generator_emitted using trace_split_visit [OF v(1)] by blast
  ultimately have "emitted (run_generator sep r root)
      = (A @ map (link_event sep d) xs) @ [link_event sep d f]
        @ (map (link_event sep d) ys @ B)"
    by simp
  then obtain pre post where c: "contents (run_generator sep r root)
      = pre @ concat (map event_text [link_event sep d f]) @ post"
    "pre \<noteq> []" "last pre = CHR 10"
    using contents_segment by blast
  have "event_text (link_event sep d f) = link_line d f @ [CHR 10]"
    using w e by (rule link_event_text)
  then have 1: "\<exists>pre post. contents (run_generator sep r root)
        = pre @ link_line d f @ [CHR 10] @ post \<and> pre \<noteq> [] \<and> last pre = CHR 10"
    using c by auto
  have 2: "link_line d f
      = ''- ['' @ link_title f @ '']('' @ str_replace sep (CHR ''/'') (str_join [sep] (d @ [f]))
        @ '')''"
    unfolding rp by (simp add: link_line_def)
  have 5: "link_title f = fst (splitext sep (basename sep (str_join [sep] (d @ [f]))))"
    unfolding b using splitext_link_title [OF w(2) e] by simp
  show ?thesis using 1 2 st t b 5 by blast
qed

theorem C7_link_format_witness:
  "wf_node (CHR ''/'') example_tree \<and> retained example_tree [''docs'', ''sub''] ''y.md''
   \<and> (\<exists>pre post. contents (run_generator (CHR ''/'') ''/repo'' example_tree)
         = pre @ ''- [y](docs/sub/y.md)'' @ [CHR 10] @ post \<and> pre \<noteq> [] \<and> last pre = CHR 10)"
proof -
  have r: "retained example_tree [''docs'', ''sub''] ''y.md''"
    by (simp add: example_tree_def retained_def excluded_def endswith_def)
  have l: "link_line [''docs'', ''sub''] ''y.md'' = ''- [y](docs/sub/y.md)''"
    by (simp add: link_line_def link_title_def)
  have "\<exists>pre post. contents (run_generator (CHR ''/'') ''/repo'' example_tree)
         = pre @ link_line [''docs'', ''sub''] ''y.md'' @ [CHR 10] @ post
         \<and> pre \<noteq> [] \<and> last pre = CHR 10"
    using C7_link_format [OF example_tree_wf r, of "''/repo''"] by blast
  then show ?thesis unfolding l using example_tree_wf r by blast
qed

section \<open>The lines of the index\<close>

lemma link_title_set: "set (link_title f) \<subseteq> set f"
  using set_take_subset [of "length f - 3" f] by (auto simp: link_title_def Let_def)

lemma link_title_length:
  assumes "endswith f ''.md''"
  shows "3 \<le> length f \<and> (length (link_title f) = length f \<or> length (link_title f) + 3 = length f)"
proof -
  obtain stem where st: "f = stem @ ''.md''" using assms by (auto simp: endswith_append)
  show ?thesis unfolding st link_title_md by simp
qed

lemma str_join_set: "set (str_join s xs) \<subseteq> set s \<union> \<Union> (set ` set xs)"
  by (induction s xs rule: str_join.induct) auto

lemma link_line_inj:
  assumes "wf_names sep d" "wf_name sep f" "endswith f ''.md''"
    and "wf_names sep d'" "wf_name sep f'" "endswith f' ''.md''"
    and "link_line d f = link_line d' f'"
  shows "d = d' \<and> f = f'"
proof -
  let ?t = "link_title f" and ?t' = "link_title f'"
  let ?P = "str_join ''/'' (d @ [f])" and ?P' = "str_join ''/'' (d' @ [f'])"
  have u: "?t @ '']('' @ ?P = ?t' @ '']('' @ ?P'"
    using assms(7) by (simp add: link_line_def)
  have nf: "CHR ''/'' \<notin> set f" "CHR ''/'' \<notin> set f'"
    using assms(2,5) by (simp_all add: wf_name_def)
  have nt: "CHR ''/'' \<notin> set ?t" "CHR ''/'' \<notin> set ?t'"
    using nf link_title_set by blast+
  have sub: "\<And>e g. e \<noteq> [] \<Longrightarrow> str_join ''/'' (e @ [g]) = str_join ''/'' e @ CHR ''/'' # g"
    by (simp add: str_join_append)
  have slash_gen: "\<And>e g. CHR ''/'' \<notin> set g \<Longrightarrow> CHR ''/'' \<notin> set (link_title g) \<Longrightarrow>
      CHR ''/'' \<in> set (link_title g @ '']('' @ str_join ''/'' (e @ [g])) \<longleftrightarrow> e \<noteq> []"
  proof -
    fix e :: "string list" and g :: string
    assume a: "CHR ''/'' \<notin> set g" "CHR ''/'' \<notin> set (link_title g)"
    show "CHR ''/'' \<in> set (link_title g @ '']('' @ str_join ''/'' (e @ [g])) \<longleftrightarrow> e \<noteq> []"
    proof (cases "e = []")
      case True
      then show ?thesis using a by simp
    next
      case False
      then show ?thesis unfolding sub [OF False] by simp
    qed
  qed
  have slash: "CHR ''/'' \<in> set (?t @ '']('' @ ?P) \<longleftrightarrow> d \<noteq> []"
    using nf(1) nt(1) by (rule slash_gen)
  have slash': "CHR ''/'' \<in> set (?t' @ '']('' @ ?P') \<longleftrightarrow> d' \<noteq> []"
    using nf(2) nt(2) by (rule slash_gen)
  have "CHR ''/'' \<in> set (?t @ '']('' @ ?P) \<longleftrightarrow> CHR ''/'' \<in> set (?t' @ '']('' @ ?P')"
    by (simp only: u)
  then have dd: "d = [] \<longleftrightarrow> d' = []" using slash slash' by blast
  show ?thesis
  proof (cases "d = []")
    case True
    then have d': "d' = []" using dd by simp
    have b: "?t @ '']('' @ f = ?t' @ '']('' @ f'" using u True d' by simp
    then have "length (?t @ '']('' @ f) = length (?t' @ '']('' @ f')"
      by (rule arg_cong)
    then have sum: "length ?t + length f = length ?t' + length f'" by simp
    then have len: "length f = length f'"
      using link_title_length [OF assms(3)] link_title_length [OF assms(6)] by presburger
    then have lt: "length ?t = length ?t'" using sum by simp
    have "?t = ?t' \<and> '']('' @ f = '']('' @ f'"
      using append_eq_append_conv [of ?t ?t' "'']('' @ f" "'']('' @ f'"] lt b
      by (simp only: simp_thms)
    then have "f = f'" by simp
    then show ?thesis using True d' by simp
  next
    case False
    then have d': "d' \<noteq> []" using dd by simp
    have e1: "?t @ '']('' @ ?P = (?t @ '']('' @ str_join ''/'' d) @ CHR ''/'' # f"
      using sub [OF False] by simp
    have b1: "basename (CHR ''/'') (?t @ '']('' @ ?P) = f"
      unfolding e1 using nf(1) by (rule basename_append)
    have e2: "?t' @ '']('' @ ?P' = (?t' @ '']('' @ str_join ''/'' d') @ CHR ''/'' # f'"
      using sub [OF d'] by simp
    have b2: "basename (CHR ''/'') (?t' @ '']('' @ ?P') = f'"
      unfolding e2 using nf(2) by (rule basename_append)
    have ff: "f = f'" using b1 b2 u by simp
    then have "?P = ?P'" using u by simp
    moreover have "\<forall>x \<in> set (d @ [f]). CHR ''/'' \<notin> set x" "\<forall>x \<in> set (d' @ [f']). CHR ''/'' \<notin> set x"
      using assms(1,2,4,5) by (auto simp: wf_names_def wf_name_def)
    ultimately have "d @ [f] = d' @ [f']"
      by (intro str_join_inj [of _ _ "CHR ''/''"]) simp_all
    then show ?thesis by simp
  qed
qed

lemma lines_of_texts:
  assumes "\<forall>e \<in> set es. line_event e"
  shows "str_split (CHR 10) (concat (map event_text es) @ rest)
       = concat (map event_lines es) @ str_split (CHR 10) rest"
  using assms
proof (induction es)
  case Nil
  then show ?case by simp
next
  case (Cons e es)
  have ih: "str_split (CHR 10) (concat (map event_text es) @ rest)
       = concat (map event_lines es) @ str_split (CHR 10) rest"
    using Cons by simp
  show ?case
  proof (cases e)
    case (Heading k t)
    then obtain l where l: "t = CHR 10 # l @ [CHR 10]" "CHR 10 \<notin> set l"
      using Cons.prems by auto
    have "str_split (CHR 10) (t @ concat (map event_text es) @ rest)
        = [] # str_split (CHR 10) (l @ CHR 10 # (concat (map event_text es) @ rest))"
      unfolding l(1) by simp
    also have "\<dots> = [] # l # str_split (CHR 10) (concat (map event_text es) @ rest)"
      using l(2) by (simp add: str_split_cons)
    finally show ?thesis using Heading l(1) ih by simp
  next
    case (Link f t)
    then obtain l where l: "t = l @ [CHR 10]" "CHR 10 \<notin> set l"
      using Cons.prems by auto
    have "str_split (CHR 10) (t @ concat (map event_text es) @ rest)
        = l # str_split (CHR 10) (concat (map event_text es) @ rest)"
      unfolding l(1) using l(2) str_split_cons [of "CHR 10" l] by simp
    then show ?thesis using Link l(1) ih by simp
  qed
qed

lemma heading_event_lines:
  assumes "p \<noteq> []" "CHR 10 \<notin> set (last p)"
  shows "line_event (heading_event p)
       \<and> event_lines (heading_event p)
           = [[], replicate (length p + 1) (CHR ''#'') @ '' '' @ last p]"
  using assms by (simp add: heading_event_def heading_text_def butlast_append)

lemma link_line_single:
  assumes "\<forall>x \<in> set d. CHR 10 \<notin> set x" "CHR 10 \<notin> set f"
  shows "CHR 10 \<notin> set (link_line d f)"
proof -
  have "CHR 10 \<notin> set (link_title f)" using assms(2) link_title_set by blast
  moreover have "CHR 10 \<notin> set (str_join ''/'' (d @ [f]))"
    using assms str_join_set [of "''/''" "d @ [f]"] by auto
  ultimately show ?thesis by (simp add: link_line_def)
qed

lemma link_event_lines:
  assumes "wf_names sep d" "wf_name sep f" "endswith f ''.md''"
    and "\<forall>x \<in> set d. CHR 10 \<notin> set x" "CHR 10 \<notin> set f"
  shows "line_event (link_event sep d f) \<and> event_lines (link_event sep d f) = [link_line d f]"
proof -
  have t: "event_text (link_event sep d f) = link_line d f @ [CHR 10]"
    using assms(1-3) by (rule link_event_text)
  obtain path t' where e: "link_event sep d f = Link path t'"
    by (simp add: link_event_def)
  then have "t' = link_line d f @ [CHR 10]" using t by simp
  then show ?thesis
    unfolding e using link_line_single [OF assms(4,5)] by simp
qed

lemma link_line_bullet: "bullet (link_line d f)"
  by (simp add: bullet_def link_line_def)

lemma new_headings_lines:
  assumes "\<forall>p \<in> set ps. p \<noteq> [] \<and> CHR 10 \<notin> set (last p)"
  shows "(\<forall>e \<in> set (new_headings P ps). line_event e)
       \<and> filter bullet (concat (map event_lines (new_headings P ps))) = []"
  using assms
proof (induction ps)
  case Nil
  then show ?case by (simp add: new_headings_def)
next
  case (Cons p ps)
  have h: "line_event (heading_event p)"
    "event_lines (heading_event p) = [[], replicate (length p + 1) (CHR ''#'') @ '' '' @ last p]"
    using heading_event_lines [of p] Cons.prems by simp_all
  have nb: "\<not> bullet []" "\<not> bullet (replicate (length p + 1) (CHR ''#'') @ '' '' @ last p)"
    by (simp_all add: bullet_def)
  have ih: "(\<forall>e \<in> set (new_headings P ps). line_event e)
       \<and> filter bullet (concat (map event_lines (new_headings P ps))) = []"
    using Cons by simp
  show ?case
    using h nb ih by (simp add: new_headings_Cons)
qed

lemma link_events_lines:
  assumes "wf_names sep d" "wf_names sep fs" "\<forall>f \<in> set fs. endswith f ''.md''"
    and "\<forall>x \<in> set d \<union> set fs. CHR 10 \<notin> set x"
  shows "(\<forall>e \<in> set (map (link_event sep d) fs). line_event e)
       \<and> filter bullet (concat (map event_lines (map (link_event sep d) fs)))
           = map (link_line d) fs"
  using assms(2-4)
proof (induction fs)
  case Nil
  then show ?case by simp
next
  case (Cons f fs)
  have "wf_name sep f" "endswith f ''.md''" "\<forall>x \<in> set d. CHR 10 \<notin> set x" "CHR 10 \<notin> set f"
    using Cons.prems by (simp_all add: wf_names_def)
  then have l: "line_event (link_event sep d f)"
    "event_lines (link_event sep d f) = [link_line d f]"
    using link_event_lines [OF assms(1)] by simp_all
  have ih: "(\<forall>e \<in> set (map (link_event sep d) fs). line_event e)
       \<and> filter bullet (concat (map event_lines (map (link_event sep d) fs)))
           = map (link_line d) fs"
    using Cons by (simp add: wf_names_def)
  show ?case using l ih link_line_bullet by simp
qed

lemma trace_lines:
  assumes "\<forall>v \<in> set vs. plain_visit sep v"
  shows "(\<forall>e \<in> set (trace sep P vs). line_event e)
       \<and> filter bullet (concat (map event_lines (trace sep P vs)))
           = concat (map (\<lambda>v. map (link_line (fst v)) (sort (snd v))) vs)"
  using assms
proof (induction vs arbitrary: P)
  case Nil
  then show ?case by simp
next
  case (Cons v vs)
  let ?d = "fst v"
  have pv: "wf_names sep ?d" "wf_names sep (snd v)" "\<forall>f \<in> set (snd v). endswith f ''.md''"
    "\<forall>x \<in> set ?d \<union> set (snd v). CHR 10 \<notin> set x"
    using Cons.prems by (simp_all add: plain_visit_def)
  have dp: "dir_parts sep ?d = ?d" using pv(1) by (rule dir_parts_wf)
  have "\<forall>p \<in> set (prefixes_from [] ?d). p \<noteq> [] \<and> CHR 10 \<notin> set (last p)"
  proof
    fix p assume "p \<in> set (prefixes_from [] ?d)"
    then have p: "p \<noteq> []" "prefix p ?d" by (simp_all add: prefixes_set)
    then have "last p \<in> set ?d" using last_in_set [OF p(1)] set_mono_prefix [OF p(2)] by blast
    then show "p \<noteq> [] \<and> CHR 10 \<notin> set (last p)" using p(1) pv(4) by blast
  qed
  then have h: "(\<forall>e \<in> set (new_headings P (prefixes_from [] ?d)). line_event e)
       \<and> filter bullet (concat (map event_lines (new_headings P (prefixes_from [] ?d)))) = []"
    by (rule new_headings_lines)
  have "wf_names sep (sort (snd v))" "\<forall>f \<in> set (sort (snd v)). endswith f ''.md''"
    "\<forall>x \<in> set ?d \<union> set (sort (snd v)). CHR 10 \<notin> set x"
    using pv by (simp_all add: wf_names_def)
  then have l: "(\<forall>e \<in> set (map (link_event sep ?d) (sort (snd v))). line_event e)
       \<and> filter bullet (concat (map event_lines (map (link_event sep ?d) (sort (snd v)))))
           = map (link_line ?d) (sort (snd v))"
    using link_events_lines [OF pv(1)] by blast
  have ih: "(\<forall>e \<in> set (trace sep (P \<union> heading_key ` set (prefixes_from [] ?d)) vs). line_event e)
       \<and> filter bullet (concat (map event_lines
             (trace sep (P \<union> heading_key ` set (prefixes_from [] ?d)) vs)))
           = concat (map (\<lambda>v. map (link_line (fst v)) (sort (snd v))) vs)"
    using Cons.prems by (intro Cons.IH) simp
  show ?case using h l ih by (auto simp: dp)
qed

lemma lookup_single_line:
  "single_line_names n \<Longrightarrow> lookup n rel = Some m \<Longrightarrow>
   (\<forall>x \<in> set rel. CHR 10 \<notin> set x) \<and> single_line_names m"
proof (induction n rel rule: lookup.induct)
  case (1 n)
  then show ?case by simp
next
  case (2 t name names)
  then show ?case by simp
next
  case (3 entries name names)
  from "3.prems"(2) obtain child where c: "map_of entries name = Some child"
    "lookup child names = Some m"
    by (cases "map_of entries name") auto
  have "(name, child) \<in> set entries" using c(1) by (rule map_of_SomeD)
  then have w: "CHR 10 \<notin> set name" "single_line_names child"
    using "3.prems"(1) by auto
  have "(\<forall>x \<in> set names. CHR 10 \<notin> set x) \<and> single_line_names m"
    using "3.IH" [OF c(1) w(2) c(2)] .
  then show ?case using w(1) by simp
qed

lemma entry_files_subset: "set (entry_files es) \<subseteq> fst ` set es"
  by (auto simp: entry_files_def filterDirectory_def Let_def)

lemma visits_plain:
  assumes "wf_node sep root" "single_line_names root"
  shows "\<forall>v \<in> set (visits [] root). plain_visit sep v"
proof
  fix v assume v: "v \<in> set (visits [] root)"
  then have m: "(fst v, snd v) \<in> set (visits [] root)" by simp
  have w: "wf_names sep (fst v)" "wf_names sep (snd v)"
    using visits_wf [OF assms(1) m] by simp_all
  have e: "\<forall>f \<in> set (snd v). endswith f ''.md''"
    using visits_endswith [OF m] by blast
  obtain rel entries where s: "fst v = [] @ rel" "lookup root rel = Some (Dir entries)"
    "snd v = entry_files entries"
    using visits_sound [OF m] by blast
  have l: "(\<forall>x \<in> set rel. CHR 10 \<notin> set x) \<and> single_line_names (Dir entries)"
    using assms(2) s(2) by (rule lookup_single_line)
  then have "\<forall>x \<in> set (snd v). CHR 10 \<notin> set x"
    using s(3) entry_files_subset [of entries] by fastforce
  then have "\<forall>x \<in> set (fst v) \<union> set (snd v). CHR 10 \<notin> set x"
    using l s(1) by auto
  then show "plain_visit sep v"
    using w e unfolding plain_visit_def by blast
qed

lemma count_list_filter: "Q x \<Longrightarrow> count_list (filter Q xs) x = count_list xs x"
  by (induction xs) auto

lemma link_lines_distinct:
  assumes "wf_node sep root"
  shows "distinct (concat (map (\<lambda>v. map (link_line (fst v)) (sort (snd v))) (visits [] root)))"
proof (rule distinct_concat_map)
  show "distinct (visits [] root)"
    using visits_distinct [OF assms] by (rule distinct_map [THEN iffD1, THEN conjunct1])
next
  fix v assume v: "v \<in> set (visits [] root)"
  then have m: "(fst v, snd v) \<in> set (visits [] root)" by simp
  have w: "wf_names sep (fst v)" "wf_names sep (snd v)" "distinct (snd v)"
    using visits_wf [OF assms m] by simp_all
  have "inj_on (link_line (fst v)) (set (sort (snd v)))"
  proof (rule inj_onI)
    fix f f' assume a: "f \<in> set (sort (snd v))" "f' \<in> set (sort (snd v))"
      "link_line (fst v) f = link_line (fst v) f'"
    then have "wf_name sep f" "wf_name sep f'" "endswith f ''.md''" "endswith f' ''.md''"
      using w(2) visits_endswith [OF m] by (simp_all add: wf_names_def)
    then show "f = f'" using link_line_inj [OF w(1) _ _ w(1)] a(3) by blast
  qed
  then show "distinct (map (link_line (fst v)) (sort (snd v)))"
    using w(3) by (simp add: distinct_map)
next
  fix v v' assume v: "v \<in> set (visits [] root)" "v' \<in> set (visits [] root)" "v \<noteq> v'"
  have m: "(fst v, snd v) \<in> set (visits [] root)" "(fst v', snd v') \<in> set (visits [] root)"
    using v by simp_all
  have w: "wf_names sep (fst v)" "wf_names sep (snd v)"
    using visits_wf [OF assms m(1)] by simp_all
  have w': "wf_names sep (fst v')" "wf_names sep (snd v')"
    using visits_wf [OF assms m(2)] by simp_all
  have ne: "fst v \<noteq> fst v'"
  proof
    assume "fst v = fst v'"
    then have "v = v'"
      using visits_distinct [OF assms, of "[]"] v(1,2) by (simp add: distinct_map inj_on_def)
    then show False using v(3) by simp
  qed
  have "\<And>f f'. f \<in> set (snd v) \<Longrightarrow> f' \<in> set (snd v') \<Longrightarrow>
      link_line (fst v) f \<noteq> link_line (fst v') f'"
  proof
    fix f f' assume a: "f \<in> set (snd v)" "f' \<in> set (snd v')"
      "link_line (fst v) f = link_line (fst v') f'"
    then have "wf_name sep f" "wf_name sep f'" "endswith f ''.md''" "endswith f' ''.md''"
      using w(2) w'(2) visits_endswith [OF m(1)] visits_endswith [OF m(2)]
      by (simp_all add: wf_names_def)
    then have "fst v = fst v'" using link_line_inj [OF w(1) _ _ w'(1)] a(3) by blast
    then show False using ne by simp
  qed
  then show "set (map (link_line (fst v)) (sort (snd v)))
      \<inter> set (map (link_line (fst v')) (sort (snd v'))) = {}"
    by auto
qed

lemma link_lines_set:
  assumes "wf_node sep root"
  shows "set (concat (map (\<lambda>v. map (link_line (fst v)) (sort (snd v))) (visits [] root)))
       = {link_line d f | d f. retained root d f}"
proof -
  have "set (concat (map (\<lambda>v. map (link_line (fst v)) (sort (snd v))) (visits [] root)))
      = {link_line d f | d f. \<exists>fs. (d, fs) \<in> set (visits [] root) \<and> f \<in> set fs}"
    (is "?A = ?B")
  proof
    show "?A \<subseteq> ?B"
    proof
      fix x assume "x \<in> ?A"
      then obtain v f where "v \<in> set (visits [] root)" "f \<in> set (snd v)"
        "x = link_line (fst v) f"
        by auto
      then have "(fst v, snd v) \<in> set (visits [] root) \<and> f \<in> set (snd v)
          \<and> x = link_line (fst v) f" by simp
      then show "x \<in> ?B" by blast
    qed
  next
    show "?B \<subseteq> ?A"
    proof
      fix x assume "x \<in> ?B"
      then obtain d f fs where "(d, fs) \<in> set (visits [] root)" "f \<in> set fs"
        "x = link_line d f" by blast
      then show "x \<in> ?A" by force
    qed
  qed
  then show ?thesis unfolding visits_retained [OF assms] .
qed

lemma index_lines:
  assumes "wf_node sep root" "single_line_names root"
    and "CHR 10 \<notin> set (basename sep (normpath sep r))"
  shows "filter bullet (str_split (CHR 10) (contents (run_generator sep r root)))
       = concat (map (\<lambda>v. map (link_line (fst v)) (sort (snd v))) (visits [] root))"
proof -
  let ?title = "''# '' @ basename sep (normpath sep r)"
  let ?E = "trace sep {} (visits [] root)"
  have t: "(\<forall>e \<in> set ?E. line_event e)
       \<and> filter bullet (concat (map event_lines ?E))
           = concat (map (\<lambda>v. map (link_line (fst v)) (sort (snd v))) (visits [] root))"
    using visits_plain [OF assms(1,2)] by (rule trace_lines)
  have nt: "CHR 10 \<notin> set ?title" using assms(3) by simp
  have "contents (run_generator sep r root) = ?title @ CHR 10 # (concat (map event_text ?E) @ [])"
    using run_generator_contents [of sep r root] by (simp add: run_generator_emitted)
  then have "str_split (CHR 10) (contents (run_generator sep r root))
      = ?title # str_split (CHR 10) (concat (map event_text ?E) @ [])"
    using nt str_split_cons [of "CHR 10" ?title] by simp
  also have "\<dots> = ?title # (concat (map event_lines ?E) @ str_split (CHR 10) [])"
    using t lines_of_texts [of ?E "[]"] by simp
  finally have "str_split (CHR 10) (contents (run_generator sep r root))
      = ?title # (concat (map event_lines ?E) @ [[]])" by simp
  moreover have "\<not> bullet ?title" "\<not> bullet []" by (simp_all add: bullet_def)
  ultimately show ?thesis using t by simp
qed

lemma nl_tree_contents:
  "contents (run_generator (CHR ''/'') ''/repo'' nl_tree)
   = ''# repo'' @ [CHR 10]
     @ ''- [g](g.md)'' @ [CHR 10]
     @ [CHR 10] @ ''## a'' @ [CHR 10] @ ''- [g](g.md)'' @ [CHR 10]
     @ ''- [x](a'' @ [CHR 10] @ ''- [g](g.md)/x.md)'' @ [CHR 10]"
  by code_simp

text \<open>
  C1, as stated, fails: in this tree of well-formed names the file \<open>g.md\<close> of the root is
  retained, and the line \<open>- [g](g.md)\<close> stands twice in the index, once for the file and
  once as the second line of the heading of a directory whose name holds a newline.
\<close>

theorem C1_newline_counterexample:
  "wf_node (CHR ''/'') nl_tree \<and> retained nl_tree [] ''g.md''
   \<and> count_list (str_split (CHR 10) (contents (run_generator (CHR ''/'') ''/repo'' nl_tree)))
        ''- [g](g.md)'' = 2"
proof -
  have w: "wf_node (CHR ''/'') nl_tree" by (simp add: nl_tree_def wf_name_def)
  have r: "retained nl_tree [] ''g.md''"
    by (simp add: nl_tree_def retained_def excluded_def endswith_def)
  have c: "count_list (str_split (CHR 10) (contents (run_generator (CHR ''/'') ''/repo'' nl_tree)))
        ''- [g](g.md)'' = 2"
    unfolding nl_tree_contents by simp
  show ?thesis using w r c by blast
qed

text \<open>
  C1, amended. In a tree of well-formed names none of which holds a newline, below a
  root directory whose name holds none, every file whose name ends in \<open>.md\<close>, other than
  a \<open>README.md\<close> and other than the files below a directory named \<open>.git\<close> or \<open>.github\<close>,
  has its link on exactly one line of the index; every line of the index that begins a
  bullet link is the link of such a file; and two such files never share a link.
\<close>

theorem C1_each_retained_file_linked_once:
  assumes "wf_node sep root" and "single_line_names root"
    and "CHR 10 \<notin> set (basename sep (normpath sep r))"
  shows "(\<forall>d f. retained root d f \<longrightarrow>
            count_list (str_split (CHR 10) (contents (run_generator sep r root)))
              (link_line d f) = 1)
       \<and> (\<forall>l \<in> set (str_split (CHR 10) (contents (run_generator sep r root))).
            take 3 l = ''- ['' \<longrightarrow> (\<exists>d f. retained root d f \<and> l = link_line d f))
       \<and> (\<forall>d f d' f'. retained root d f \<and> retained root d' f'
              \<and> link_line d f = link_line d' f' \<longrightarrow> d = d' \<and> f = f')"
proof -
  let ?lines = "str_split (CHR 10) (contents (run_generator sep r root))"
  let ?links = "concat (map (\<lambda>v. map (link_line (fst v)) (sort (snd v))) (visits [] root))"
  have b: "filter bullet ?lines = ?links"
    using assms by (rule index_lines)
  have d: "distinct ?links" using assms(1) by (rule link_lines_distinct)
  have s: "set ?links = {link_line d f | d f. retained root d f}"
    using assms(1) by (rule link_lines_set)
  have 1: "\<forall>d f. retained root d f \<longrightarrow> count_list ?lines (link_line d f) = 1"
  proof (intro allI impI)
    fix d f assume "retained root d f"
    then have "link_line d f \<in> set ?links" unfolding s by blast
    then have "count_list ?links (link_line d f) = 1"
      by (simp add: count_list_distinct [OF d])
    then show "count_list ?lines (link_line d f) = 1"
      using count_list_filter [of bullet "link_line d f" ?lines] link_line_bullet b by simp
  qed
  have 2: "\<forall>l \<in> set ?lines. take 3 l = ''- ['' \<longrightarrow> (\<exists>d f. retained root d f \<and> l = link_line d f)"
  proof (intro ballI impI)
    fix l assume "l \<in> set ?lines" "take 3 l = ''- [''"
    then have "l \<in> set (filter bullet ?lines)" by (simp add: bullet_def)
    then have "l \<in> {link_line d f | d f. retained root d f}" unfolding b s .
    then show "\<exists>d f. retained root d f \<and> l = link_line d f" by blast
  qed
  have 3: "\<forall>d f d' f'. retained root d f \<and> retained root d' f'
              \<and> link_line d f = link_line d' f' \<longrightarrow> d = d' \<and> f = f'"
  proof (intro allI impI)
    fix d f d' f'
    assume a: "retained root d f \<and> retained root d' f' \<and> link_line d f = link_line d' f'"
    have w: "wf_names sep d" "wf_name sep f" "wf_names sep d'" "wf_name sep f'"
      using a retained_wf [OF assms(1)] by blast+
    have e: "endswith f ''.md''" "endswith f' ''.md''"
      using a by (simp_all add: retained_def)
    show "d = d' \<and> f = f'"
      using link_line_inj [OF w(1,2) e(1) w(3,4) e(2)] a by blast
  qed
  show ?thesis using 1 2 3 by blast
qed

theorem C1_each_retained_file_linked_once_witness:
  "wf_node (CHR ''/'') example_tree \<and> single_line_names example_tree
   \<and> CHR 10 \<notin> set (basename (CHR ''/'') (normpath (CHR ''/'') ''/repo''))
   \<and> retained example_tree [''docs''] ''x.md''
   \<and> count_list (str_split (CHR 10) (contents (run_generator (CHR ''/'') ''/repo'' example_tree)))
        ''- [x](docs/x.md)'' = 1"
proof -
  have s: "single_line_names example_tree" by (simp add: example_tree_def)
  have t: "CHR 10 \<notin> set (basename (CHR ''/'') (normpath (CHR ''/'') ''/repo''))"
    unfolding example_title by simp
  have l: "link_line [''docs''] ''x.md'' = ''- [x](docs/x.md)''"
    by (simp add: link_line_def link_title_def)
  have "count_list (str_split (CHR 10) (contents (run_generator (CHR ''/'') ''/repo'' example_tree)))
        (link_line [''docs''] ''x.md'') = 1"
    using C1_each_retained_file_linked_once [OF example_tree_wf s t] example_retained by blast
  then show ?thesis unfolding l using example_tree_wf s t example_retained by blast
qed

section \<open>The heading lines\<close>

lemma Heading_in_keys: "Heading k t \<in> set es \<Longrightarrow> k \<in> set (heading_keys es)"
  by (induction es rule: heading_keys.induct) auto

lemma keys_Heading: "k \<in> set (heading_keys es) \<Longrightarrow> \<exists>t. Heading k t \<in> set es"
  by (induction es rule: heading_keys.induct) auto

text \<open>
  C3. No key is headed twice in a run. The key of a directory (its names from the root,
  joined by slashes) is headed once if a file is retained in the directory or below
  it, and not at all otherwise. The run processes the directories that retain a file
  one after the other, in the order of the traversal, and the key is headed after the
  first \<open>k\<close> of them exactly if one of these \<open>k\<close> is the directory or lies below it: the
  heading is emitted with the first such directory. The index is the title followed by
  the texts of the events in their order, the text of the heading of the key is the
  heading line of the directory, and when the key is headed the index holds that line.
\<close>

theorem C3_heading_once:
  assumes "wf_node sep root" and "wf_names sep p" and "p \<noteq> []"
  shows "distinct (heading_keys (emitted (run_generator sep r root)))
       \<and> count_list (heading_keys (emitted (run_generator sep r root))) (str_join ''/'' p)
           = (if \<exists>d f. retained root d f \<and> prefix p d then 1 else 0)
       \<and> run_generator sep r root
           = fold (visit sep) (visits [] root)
               (new_generator sep r (path_join sep r ''README.md''))
       \<and> (\<forall>d. (\<exists>fs. (d, fs) \<in> set (visits [] root)) \<longleftrightarrow> (\<exists>f. retained root d f))
       \<and> (\<forall>k \<le> length (visits [] root).
            str_join ''/'' p
              \<in> set (heading_keys (emitted (fold (visit sep) (take k (visits [] root))
                     (new_generator sep r (path_join sep r ''README.md'')))))
            \<longleftrightarrow> (\<exists>j<k. prefix p (fst (visits [] root ! j))))
       \<and> contents (run_generator sep r root)
           = ''# '' @ basename sep (normpath sep r) @ [CHR 10]
             @ concat (map event_text (emitted (run_generator sep r root)))
       \<and> (\<forall>t. Heading (str_join ''/'' p) t \<in> set (emitted (run_generator sep r root)) \<longrightarrow>
            t = [CHR 10] @ replicate (length p + 1) (CHR ''#'') @ '' '' @ last p @ [CHR 10])
       \<and> ((\<exists>d f. retained root d f \<and> prefix p d) \<longrightarrow>
            (\<exists>pre post. contents (run_generator sep r root)
               = pre @ ([CHR 10] @ replicate (length p + 1) (CHR ''#'') @ '' '' @ last p
                        @ [CHR 10]) @ post
             \<and> pre \<noteq> [] \<and> last pre = CHR 10))"
proof -
  let ?vs = "visits [] root"
  let ?g = "new_generator sep r (path_join sep r ''README.md'')"
  let ?E = "emitted (run_generator sep r root)"
  let ?h = "[CHR 10] @ replicate (length p + 1) (CHR ''#'') @ '' '' @ last p @ [CHR 10]"
  have w: "\<forall>v \<in> set ?vs. wf_names sep (fst v)"
    using visits_wf [OF assms(1)] by (metis prod.collapse)
  have 1: "distinct (heading_keys ?E)"
    unfolding run_generator_emitted by (rule heading_keys_trace_distinct)
  have "str_join ''/'' p \<in> set (heading_keys ?E) \<longleftrightarrow> (\<exists>v \<in> set ?vs. prefix p (fst v))"
    unfolding run_generator_emitted heading_key_def [symmetric]
    using w assms(2,3) by (rule key_in_trace)
  also have "\<dots> \<longleftrightarrow> (\<exists>d. (\<exists>fs. (d, fs) \<in> set ?vs) \<and> prefix p d)"
    by force
  also have "\<dots> \<longleftrightarrow> (\<exists>d f. retained root d f \<and> prefix p d)"
    unfolding visits_nonempty_retained [OF assms(1)] by blast
  finally have in_keys: "str_join ''/'' p \<in> set (heading_keys ?E)
      \<longleftrightarrow> (\<exists>d f. retained root d f \<and> prefix p d)" .
  then have 2: "count_list (heading_keys ?E) (str_join ''/'' p)
      = (if \<exists>d f. retained root d f \<and> prefix p d then 1 else 0)"
    by (simp add: count_list_distinct [OF 1])
  have 3: "run_generator sep r root = fold (visit sep) ?vs ?g"
    by (simp add: run_generator_def walk_visits)
  have 4: "\<forall>d. (\<exists>fs. (d, fs) \<in> set ?vs) \<longleftrightarrow> (\<exists>f. retained root d f)"
    using visits_nonempty_retained [OF assms(1)] by blast
  have 5: "\<forall>k \<le> length ?vs.
            str_join ''/'' p \<in> set (heading_keys (emitted (fold (visit sep) (take k ?vs) ?g)))
            \<longleftrightarrow> (\<exists>j<k. prefix p (fst (?vs ! j)))"
  proof (intro allI impI)
    fix k assume k: "k \<le> length ?vs"
    have e: "emitted (fold (visit sep) (take k ?vs) ?g) = trace sep {} (take k ?vs)"
      by (simp add: fold_visit_emitted new_generator_def)
    have "\<forall>v \<in> set (take k ?vs). wf_names sep (fst v)"
      using w in_set_takeD by fast
    then have "heading_key p \<in> set (heading_keys (trace sep {} (take k ?vs)))
        \<longleftrightarrow> (\<exists>v \<in> set (take k ?vs). prefix p (fst v))"
      using assms(2,3) by (rule key_in_trace)
    also have "\<dots> \<longleftrightarrow> (\<exists>j<k. prefix p (fst (?vs ! j)))"
      using k by (rule ex_take_nth)
    finally show "str_join ''/'' p \<in> set (heading_keys (emitted (fold (visit sep) (take k ?vs) ?g)))
            \<longleftrightarrow> (\<exists>j<k. prefix p (fst (?vs ! j)))"
      unfolding e heading_key_def .
  qed
  have 6: "contents (run_generator sep r root)
           = ''# '' @ basename sep (normpath sep r) @ [CHR 10] @ concat (map event_text ?E)"
    by (rule run_generator_contents)
  have 7: "\<forall>t. Heading (str_join ''/'' p) t \<in> set ?E \<longrightarrow> t = ?h"
  proof (intro allI impI)
    fix t assume "Heading (str_join ''/'' p) t \<in> set ?E"
    then obtain v q where v: "v \<in> set ?vs"
      "q \<in> set (prefixes_from [] (dir_parts sep (fst v)))"
      "str_join ''/'' p = heading_key q" "t = heading_text q"
      using Heading_in_trace unfolding run_generator_emitted by blast
    have wv: "wf_names sep (fst v)" using w v(1) by simp
    then have q: "q \<noteq> []" "prefix q (fst v)"
      using v(2) by (simp_all add: dir_parts_wf prefixes_set)
    have "wf_names sep q" using wv q(2) by (rule wf_names_prefix)
    then have "q = p"
      using assms(2,3) q(1) v(3) heading_key_inj [of sep q p] by (simp add: heading_key_def)
    then show "t = ?h" using v(4) by (simp add: heading_text_def)
  qed
  have 8: "(\<exists>d f. retained root d f \<and> prefix p d) \<longrightarrow>
            (\<exists>pre post. contents (run_generator sep r root) = pre @ ?h @ post
             \<and> pre \<noteq> [] \<and> last pre = CHR 10)"
  proof
    assume "\<exists>d f. retained root d f \<and> prefix p d"
    then have "str_join ''/'' p \<in> set (heading_keys ?E)" using in_keys by simp
    then obtain t where t: "Heading (str_join ''/'' p) t \<in> set ?E"
      using keys_Heading by blast
    then have th: "t = ?h" using 7 by blast
    obtain A B where "?E = A @ [Heading (str_join ''/'' p) t] @ B"
      using t by (metis append_Cons append_Nil split_list)
    then obtain pre post where "contents (run_generator sep r root)
        = pre @ concat (map event_text [Heading (str_join ''/'' p) t]) @ post"
      "pre \<noteq> []" "last pre = CHR 10"
      using contents_segment by blast
    then show "\<exists>pre post. contents (run_generator sep r root) = pre @ ?h @ post
             \<and> pre \<noteq> [] \<and> last pre = CHR 10"
      using th by auto
  qed
  show ?thesis using 1 2 3 4 5 6 7 8 by blast
qed

theorem C3_heading_once_witness:
  "wf_node (CHR ''/'') example_tree \<and> wf_names (CHR ''/'') [''docs''] \<and> [''docs''] \<noteq> []
   \<and> retained example_tree [''docs'', ''sub''] ''y.md'' \<and> prefix [''docs''] [''docs'', ''sub'']
   \<and> count_list (heading_keys (emitted (run_generator (CHR ''/'') ''/repo'' example_tree)))
        ''docs'' = 1
   \<and> (\<exists>pre post. contents (run_generator (CHR ''/'') ''/repo'' example_tree)
         = pre @ ([CHR 10] @ ''## docs'' @ [CHR 10]) @ post \<and> pre \<noteq> [] \<and> last pre = CHR 10)
   \<and> contents (run_generator (CHR ''/'') ''/repo'' example_tree)
     = ''# repo'' @ [CHR 10]
       @ ''- [a](a.md)'' @ [CHR 10]
       @ ''- [b](b.md)'' @ [CHR 10]
       @ [CHR 10] @ ''## docs'' @ [CHR 10]
       @ ''- [x](docs/x.md)'' @ [CHR 10]
       @ [CHR 10] @ ''### sub'' @ [CHR 10]
       @ ''- [y](docs/sub/y.md)'' @ [CHR 10]
       @ [CHR 10] @ ''### img'' @ [CHR 10]
       @ ''- [z](docs/img/z.md)'' @ [CHR 10]"
proof -
  have w: "wf_names (CHR ''/'') [''docs'']" "[''docs''] \<noteq> []"
    by (simp_all add: wf_names_def wf_name_def)
  have r: "retained example_tree [''docs'', ''sub''] ''y.md''"
    by (simp add: example_tree_def retained_def excluded_def endswith_def)
  have p: "prefix [''docs''] [''docs'', ''sub'']" by simp
  have ex: "\<exists>d f. retained example_tree d f \<and> prefix [''docs''] d"
    using r p by blast
  note c3 = C3_heading_once [OF example_tree_wf w, of "''/repo''"]
  have "count_list (heading_keys (emitted (run_generator (CHR ''/'') ''/repo'' example_tree)))
        (str_join ''/'' [''docs''])
      = (if \<exists>d f. retained example_tree d f \<and> prefix [''docs''] d then 1 else 0)"
    using c3 by blast
  then have 1: "count_list (heading_keys (emitted (run_generator (CHR ''/'') ''/repo'' example_tree)))
        ''docs'' = 1" using ex by simp
  have "\<exists>pre post. contents (run_generator (CHR ''/'') ''/repo'' example_tree)
         = pre @ ([CHR 10] @ replicate (length [''docs''] + 1) (CHR ''#'') @ '' ''
                  @ last [''docs''] @ [CHR 10]) @ post
         \<and> pre \<noteq> [] \<and> last pre = CHR 10"
    using c3 ex by blast
  then have 2: "\<exists>pre post. contents (run_generator (CHR ''/'') ''/repo'' example_tree)
         = pre @ ([CHR 10] @ ''## docs'' @ [CHR 10]) @ post \<and> pre \<noteq> [] \<and> last pre = CHR 10"
    by (simp add: numeral_2_eq_2)
  show ?thesis using example_tree_wf w r p 1 2 example_contents by blast
qed

section \<open>The title of a link\<close>

text \<open>
  C10, as stated, fails: the name \<open>..md\<close> holds several dots and passes the filter, but
  its final extension is not stripped: the link is not \<open>- [.](..md)\<close>.
\<close>

theorem C10_dots_only_counterexample:
  "\<not> (fst (snd (filterDirectory [] [''..md''])) = [''..md'']
      \<and> generateLink (CHR ''/'') ''..md'' = ''- [.](..md)'')"
  by (simp add: generateLink_def basename_def splitext_def rfind_def str_replace_def)

text \<open>
  C10, amended. In a name with several dots, only the part from the last dot on is
  dropped from the link text, provided a character other than the dot stands before
  the last dot; when only dots stand before it, nothing is dropped. For a name
  \<open>stem.ext\<close> without separator, where \<open>ext\<close> has no dot, the link is \<open>- [stem](stem.ext)\<close>
  in the first case and \<open>- [stem.ext](stem.ext)\<close> in the second, and a root directory
  with this file adds the link and a newline to the index. At \<open>a.b.md\<close> the link is
  \<open>- [a.b](a.b.md)\<close>, at \<open>..md\<close> it is \<open>- [..md](..md)\<close>.
\<close>

theorem C10_final_extension_only:
  assumes "sep \<notin> set (stem @ CHR ''.'' # ext)" and "CHR ''.'' \<notin> set ext"
  shows "generateLink sep (stem @ CHR ''.'' # ext)
         = ''- ['' @ (if set stem \<subseteq> {CHR ''.''} then stem @ CHR ''.'' # ext else stem)
           @ '']('' @ stem @ CHR ''.'' # ext @ '')''
       \<and> contents (processDirectory sep [] [stem @ CHR ''.'' # ext] g)
         = contents g
           @ ''- ['' @ (if set stem \<subseteq> {CHR ''.''} then stem @ CHR ''.'' # ext else stem)
           @ '']('' @ stem @ CHR ''.'' # ext @ '')'' @ [CHR 10]"
proof -
  let ?name = "stem @ CHR ''.'' # ext"
  have b: "basename sep ?name = ?name"
    using assms(1) by (rule basename_plain)
  have t: "fst (splitext sep ?name) = (if set stem \<subseteq> {CHR ''.''} then ?name else stem)"
  proof (cases "has_non_dot stem")
    case True
    then show ?thesis
      using splitext_last_dot [OF assms True] by (simp add: has_non_dot_iff)
  next
    case False
    then show ?thesis
      using splitext_all_dots [OF assms False] by (simp add: has_non_dot_iff)
  qed
  have r: "str_replace sep (CHR ''/'') ?name = ?name"
    using assms(1) by (rule str_replace_absent)
  have l: "generateLink sep ?name
         = ''- ['' @ (if set stem \<subseteq> {CHR ''.''} then ?name else stem) @ '']('' @ ?name @ '')''"
    unfolding generateLink_def Let_def b t r by simp
  have "contents (processDirectory sep [] [?name] g)
      = contents g @ generateLink sep ?name @ [CHR 10]"
    by (simp add: processDirectory_def relpath_def addLink_def Let_def)
  then show ?thesis unfolding l by simp
qed

theorem C10_final_extension_only_witness:
  "CHR ''/'' \<notin> set (''a.b'' @ CHR ''.'' # ''md'') \<and> CHR ''.'' \<notin> set ''md''
   \<and> generateLink (CHR ''/'') ''a.b.md'' = ''- [a.b](a.b.md)''
   \<and> generateLink (CHR ''/'') ''..md'' = ''- [..md](..md)''"
  using C10_final_extension_only [of "CHR ''/''" "''a.b''" "''md''"]
    C10_final_extension_only [of "CHR ''/''" "''.''" "''md''"]
  by simp

end
